theory Spec2Isabelle
  imports Main "HOL-Library.Sublist" "HOL-Library.AList"
begin

section \<open>Symbol masks: the host editor's data\<close>

text \<open>
  The development embeds \<^verbatim>\<open>src/mask-controller.ts\<close> (class \<^verbatim>\<open>MaskController\<close>) and
  \<^verbatim>\<open>src/scoped-document.ts\<close> (class \<^verbatim>\<open>ScopedDocument\<close>). The objects of the host editor
  (documents, selections, decoration types, the grammar, the regular expression engine)
  are not code of the repository: each is a record holding what the two classes read from
  it, its methods as function-valued fields.

  Strings are \<^typ>\<open>string\<close>; offsets, line numbers and columns are \<^typ>\<open>nat\<close>, and the
  one place where the source subtracts from an offset compares in \<^typ>\<open>int\<close>.
\<close>

record position =
  line :: nat
  character :: nat

type_synonym range = "position \<times> position"

record selection =
  sel_start :: position
  sel_end :: position

text \<open>
  \<^verbatim>\<open>vscode.TextDocument\<close>: \<^verbatim>\<open>getText()\<close>, \<^verbatim>\<open>positionAt(offset)\<close>, \<^verbatim>\<open>offsetAt(position)\<close>,
  \<^verbatim>\<open>lineAt(i).text\<close> and \<^verbatim>\<open>lineCount\<close>.
\<close>

record text_document =
  getText :: string
  positionAt :: "nat \<Rightarrow> position"
  offsetAt :: "position \<Rightarrow> nat"
  lineAt_text :: "nat \<Rightarrow> string"
  lineCount :: nat

text \<open>
  \<^verbatim>\<open>vscode.DecorationOptions\<close> as the controller builds them: a range and the hover message.
\<close>

record decoration_options =
  d_range :: range
  d_hoverMessage :: "string option"

text \<open>
  \<^verbatim>\<open>vscode.TextEditor\<close>: the document, the selections, and what \<^verbatim>\<open>setDecorations\<close> has
  left on screen: for every decoration type (named by its handle) the list of decoration
  options last set for it, \<open>[]\<close> when nothing is shown.
\<close>

record text_editor =
  document :: text_document
  selections :: "selection list"
  decorations :: "nat \<Rightarrow> decoration_options list"

definition setDecorations :: "nat \<Rightarrow> decoration_options list \<Rightarrow> text_editor \<Rightarrow> text_editor" where
  "setDecorations h opts ed = ed\<lparr>decorations := (decorations ed)(h := opts)\<rparr>"

section \<open>The scoped document (\<^verbatim>\<open>scoped-document.ts\<close>)\<close>

record token =
  startIndex :: nat
  endIndex :: nat
  scopes :: "string list"

text \<open>
  \<^verbatim>\<open>vsctm.IGrammar.tokenizeLine(text, prevState)\<close> returns the tokens of the line and the
  rule stack at its end; \<open>'st\<close> is the type of rule stacks (\<^verbatim>\<open>vsctm.StackElement\<close>), and
  \<open>None\<close> is \<^verbatim>\<open>null\<close>.
\<close>

record 'st tokenize_line_result =
  tokens :: "token list"
  ruleStack :: 'st

record 'st grammar =
  tokenizeLine :: "string \<Rightarrow> 'st option \<Rightarrow> 'st tokenize_line_result"

text \<open>
  The fields of \<^verbatim>\<open>ScopedDocument\<close>. The keys of \<^verbatim>\<open>grammarState\<close> are integers because
  the source reads key \<open>i - 1\<close> also for \<open>i = 0\<close>.
\<close>

record 'st scoped_document =
  sd_document :: "text_document option"
  sd_grammar :: "'st grammar option"
  grammarState :: "int \<rightharpoonup> 'st"

definition setGrammar :: "'st grammar option \<Rightarrow> 'st scoped_document \<Rightarrow> 'st scoped_document" where
  "setGrammar g sd = sd\<lparr>sd_grammar := g\<rparr>"

definition setDocument :: "text_document option \<Rightarrow> 'st scoped_document \<Rightarrow> 'st scoped_document" where
  "setDocument d sd = sd\<lparr>sd_document := d\<rparr>"

definition clearGrammar :: "'st scoped_document \<Rightarrow> 'st scoped_document" where
  "clearGrammar sd = sd\<lparr>grammarState := Map.empty, sd_grammar := None\<rparr>"

text \<open>
  \<^verbatim>\<open>this.document?.lineAt(n).text || ""\<close>: the empty string when there is no document.
\<close>

definition line_text_or_empty :: "text_document option \<Rightarrow> nat \<Rightarrow> string" where
  "line_text_or_empty d n = (case d of None \<Rightarrow> [] | Some doc \<Rightarrow> lineAt_text doc n)"

definition getTokens :: "'st scoped_document \<Rightarrow> nat \<Rightarrow> token list option" where
  "getTokens sd lineNumber =
     (let prevState = grammarState sd (int lineNumber - 1)
      in case sd_grammar sd of
           None \<Rightarrow> None
         | Some g \<Rightarrow>
             Some (tokens (tokenizeLine g (line_text_or_empty (sd_document sd) lineNumber) prevState)))"

text \<open>
  The \<^verbatim>\<open>for\<close> loop of \<^verbatim>\<open>tokenize\<close>, from line \<open>i\<close> on: the state of line \<open>i - 1\<close> is read
  from the map being built, the state at the end of line \<open>i\<close> is stored in it.
\<close>

function tokenize_lines ::
  "'st grammar \<Rightarrow> text_document \<Rightarrow> nat \<Rightarrow> (int \<rightharpoonup> 'st) \<Rightarrow> (int \<rightharpoonup> 'st)" where
  "tokenize_lines g doc i gs =
     (if i < lineCount doc then
        (let prevState = gs (int i - 1);
             result = tokenizeLine g (lineAt_text doc i) prevState
         in tokenize_lines g doc (Suc i) (gs(int i \<mapsto> ruleStack result)))
      else gs)"
  by pat_completeness auto
termination
  by (relation "measure (\<lambda>(g, doc, i, gs). lineCount doc - i)") auto

definition tokenize :: "'st scoped_document \<Rightarrow> 'st scoped_document" where
  "tokenize sd =
     (let sd1 = sd\<lparr>grammarState := Map.empty\<rparr>
      in case (sd_document sd1, sd_grammar sd1) of
           (Some doc, Some g) \<Rightarrow> sd1\<lparr>grammarState := tokenize_lines g doc 0 (grammarState sd1)\<rparr>
         | _ \<Rightarrow> sd1)"

section \<open>The mask controller (\<^verbatim>\<open>mask-controller.ts\<close>)\<close>

subsection \<open>Masks\<close>

text \<open>
  The style attributes that \<^verbatim>\<open>Mask\<close> and an entry of \<^verbatim>\<open>MatchBasedReplace\<close> share; every
  one is optional (\<open>None\<close> is \<^verbatim>\<open>undefined\<close>).
\<close>

record style_fields =
  backgroundColor :: "string option"
  border :: "string option"
  borderColor :: "string option"
  color :: "string option"
  fontStyle :: "string option"
  fontWeight :: "string option"
  css :: "string option"

text \<open>An entry of \<^verbatim>\<open>MatchBasedReplace\<close>: \<^verbatim>\<open>scope?\<close>, \<^verbatim>\<open>text\<close>, \<^verbatim>\<open>hover?\<close> and the style.\<close>

record match_replace = style_fields +
  r_scope :: "string option"
  r_text :: string
  r_hover :: "string option"

text \<open>
  \<^verbatim>\<open>text?: string | MatchBasedReplace\<close>. The map is looked up with \<^verbatim>\<open>match[0] in mask.text\<close>
  and \<^verbatim>\<open>mask.text[match[0]]\<close>; a property inherited from \<^verbatim>\<open>Object.prototype\<close> has neither
  \<^verbatim>\<open>scope\<close> nor \<^verbatim>\<open>text\<close> and behaves in \<^verbatim>\<open>apply\<close> as an absent entry does.
\<close>

datatype mask_text = TextString string | TextMap "string \<rightharpoonup> match_replace"

record mask = style_fields +
  m_text :: "mask_text option"
  m_scope :: "string option"
  m_hover :: "string option"

text \<open>JavaScript truthiness of an optional string: neither \<^verbatim>\<open>undefined\<close> nor \<^verbatim>\<open>""\<close>.\<close>

definition truthy :: "string option \<Rightarrow> bool" where
  "truthy s = (case s of None \<Rightarrow> False | Some v \<Rightarrow> v \<noteq> [])"

text \<open>\<^verbatim>\<open>mask.text\<close> as a condition: a map is an object and always truthy.\<close>

definition text_truthy :: "mask_text option \<Rightarrow> bool" where
  "text_truthy t = (case t of None \<Rightarrow> False | Some (TextString s) \<Rightarrow> s \<noteq> [] | Some (TextMap m) \<Rightarrow> True)"

subsection \<open>Decoration types and the controller's state\<close>

record render_style =
  o_backgroundColor :: "string option"
  o_border :: "string option"
  o_borderColor :: "string option"
  o_color :: "string option"
  o_fontStyle :: "string option"
  o_fontWeight :: string

text \<open>The argument of \<^verbatim>\<open>createTextEditorDecorationType\<close> as \<^verbatim>\<open>initialize\<close> builds it.\<close>

record decoration_render_options =
  textDecoration :: string
  o_style :: render_style
  before_contentText :: "string option"
  before_style :: render_style

text \<open>
  A decoration type is an object of the host; \<open>handle\<close> is its identity. The host hands
  out a new handle at every \<^verbatim>\<open>createTextEditorDecorationType\<close>.
\<close>

record decoration_type =
  handle :: nat
  options :: decoration_render_options

text \<open>
  The fields of \<^verbatim>\<open>MaskController\<close>, and with them the two pieces of host state that
  \<^verbatim>\<open>apply\<close> reads or changes outside the editor: the number of decoration types created so
  far (the next handle) and the setting \<^verbatim>\<open>editor.cursorStyle\<close>. \<^verbatim>\<open>decorationTypeMap\<close> is a
  JavaScript \<^verbatim>\<open>Map\<close>, iterated in insertion order: an association list.
\<close>

record 'st mask_controller =
  decorationTypeMap :: "(string \<times> decoration_type) list"
  scopedDocument :: "'st scoped_document option"
  editor :: "text_editor option"
  createdDecorationTypes :: nat
  cursorStyleSetting :: "string option"

definition has :: "(string \<times> 'v) list \<Rightarrow> string \<Rightarrow> bool" where
  "has m k = (map_of m k \<noteq> None)"

definition setScopedDocument ::
  "'st scoped_document option \<Rightarrow> 'st mask_controller \<Rightarrow> 'st mask_controller" where
  "setScopedDocument sd c = c\<lparr>scopedDocument := sd\<rparr>"

definition setEditor :: "text_editor option \<Rightarrow> 'st mask_controller \<Rightarrow> 'st mask_controller" where
  "setEditor ed c = c\<lparr>editor := ed\<rparr>"

text \<open>\<^verbatim>\<open>this.editor.setDecorations(decorationType, opts)\<close> on the controller's editor.\<close>

definition editor_setDecorations ::
  "decoration_type \<Rightarrow> decoration_options list \<Rightarrow> 'st mask_controller \<Rightarrow> 'st mask_controller" where
  "editor_setDecorations dt opts c = c\<lparr>editor := map_option (setDecorations (handle dt) opts) (editor c)\<rparr>"

text \<open>
  \<^verbatim>\<open>mask.fontWeight + (mask.css ? ";" + mask.css : "")\<close>; string concatenation turns
  \<^verbatim>\<open>undefined\<close> into the text \<^verbatim>\<open>"undefined"\<close>.
\<close>

definition fontWeight_css :: "string option \<Rightarrow> string option \<Rightarrow> string" where
  "fontWeight_css fw cs =
     (case fw of None \<Rightarrow> ''undefined'' | Some w \<Rightarrow> w) @
     (if truthy cs then '';'' @ the cs else [])"

definition render_style_of :: "mask \<Rightarrow> render_style" where
  "render_style_of msk =
     \<lparr>o_backgroundColor = backgroundColor msk, o_border = border msk,
      o_borderColor = borderColor msk, o_color = color msk, o_fontStyle = fontStyle msk,
      o_fontWeight = fontWeight_css (fontWeight msk) (css msk)\<rparr>"

definition render_options_of :: "mask \<Rightarrow> decoration_render_options" where
  "render_options_of msk =
     \<lparr>textDecoration = (if text_truthy (m_text msk) then ''none; display: none'' else ''none''),
      o_style = render_style_of msk,
      before_contentText = (case m_text msk of Some (TextString s) \<Rightarrow> Some s | _ \<Rightarrow> None),
      before_style = render_style_of msk\<rparr>"

definition initialize :: "string \<Rightarrow> mask \<Rightarrow> 'st mask_controller \<Rightarrow> 'st mask_controller" where
  "initialize key msk c =
     (if \<not> has (decorationTypeMap c) key then
        c\<lparr>decorationTypeMap :=
             AList.update key \<lparr>handle = createdDecorationTypes c, options = render_options_of msk\<rparr>
               (decorationTypeMap c),
          createdDecorationTypes := Suc (createdDecorationTypes c)\<rparr>
      else c)"

subsection \<open>\<^verbatim>\<open>clear\<close>\<close>

text \<open>
  The loop over \<^verbatim>\<open>this.decorationTypeMap.keys()\<close>: the map does not change while it runs.
\<close>

fun clear_keys :: "string list \<Rightarrow> 'st mask_controller \<Rightarrow> 'st mask_controller" where
  "clear_keys [] c = c"
| "clear_keys (key # keys) c =
     clear_keys keys
       (case map_of (decorationTypeMap c) key of
          None \<Rightarrow> c
        | Some decorationType \<Rightarrow> editor_setDecorations decorationType [] c)"

definition clear :: "'st mask_controller \<Rightarrow> 'st mask_controller" where
  "clear c =
     (let c1 = (case editor c of
                  None \<Rightarrow> c
                | Some ed \<Rightarrow> clear_keys (map fst (decorationTypeMap c)) c)
      in c1\<lparr>decorationTypeMap := []\<rparr>)"

subsection \<open>Regular expressions\<close>

text \<open>
  A \<^verbatim>\<open>RegExp\<close> with the global flag, as \<^verbatim>\<open>updateMasks\<close> builds every pattern
  (\<^verbatim>\<open>new RegExp(pattern.pattern, pattern.ignoreCase ? "ig" : "g")\<close>). The engine is the
  host's: \<open>matcher re text k\<close> is the leftmost match of the expression in \<open>text\<close> at or
  after offset \<open>k\<close>, as the pair of its offset and its length, or \<open>None\<close>. \<open>lastIndex\<close> is
  the mutable property that \<^verbatim>\<open>exec\<close> reads and writes.
\<close>

record regexp =
  source :: string
  lastIndex :: nat
  matcher :: "string \<Rightarrow> nat \<Rightarrow> (nat \<times> nat) option"

text \<open>
  \<^verbatim>\<open>pattern.exec(text)\<close> for a global expression: the search starts at \<open>lastIndex\<close>; a
  failure resets \<open>lastIndex\<close> to 0, a success moves it to the end of the match.
\<close>

definition exec :: "regexp \<Rightarrow> string \<Rightarrow> (nat \<times> nat) option \<times> regexp" where
  "exec re text =
     (if lastIndex re > length text then (None, re\<lparr>lastIndex := 0\<rparr>)
      else case matcher re text (lastIndex re) of
             None \<Rightarrow> (None, re\<lparr>lastIndex := 0\<rparr>)
           | Some (index, len) \<Rightarrow> (Some (index, len), re\<lparr>lastIndex := index + len\<rparr>))"

subsection \<open>The decision for one match\<close>

text \<open>\<^verbatim>\<open>s.startsWith(p)\<close>.\<close>

definition startsWith :: "string \<Rightarrow> string \<Rightarrow> bool" where
  "startsWith s p = prefix p s"

text \<open>
  The loop \<^verbatim>\<open>for (const scope of token.scopes)\<close>, the same for both kinds of filter; \<open>d\<close> is
  \<^verbatim>\<open>decorateSymbol\<close>. The \<^verbatim>\<open>break\<close> leaves this loop only.
\<close>

fun scopes_loop :: "string \<Rightarrow> string list \<Rightarrow> bool \<Rightarrow> bool" where
  "scopes_loop filter_scope [] d = d"
| "scopes_loop filter_scope (scope # rest) d =
     (if startsWith scope filter_scope then
        (let remainder = drop (length filter_scope) scope
         in if length remainder = 0 \<or> startsWith remainder ''.'' then True
            else scopes_loop filter_scope rest d)
      else scopes_loop filter_scope rest d)"

text \<open>\<^verbatim>\<open>matchReplace?.scope\<close>.\<close>

definition matchReplace_scope :: "match_replace option \<Rightarrow> string option" where
  "matchReplace_scope mr = (case mr of None \<Rightarrow> None | Some r \<Rightarrow> r_scope r)"

text \<open>The loop \<^verbatim>\<open>for (const token of lineTokens)\<close>; \<open>ch\<close> is \<^verbatim>\<open>startPos.character\<close>.\<close>

fun tokens_loop :: "mask \<Rightarrow> match_replace option \<Rightarrow> nat \<Rightarrow> token list \<Rightarrow> bool \<Rightarrow> bool" where
  "tokens_loop msk mr ch [] d = d"
| "tokens_loop msk mr ch (token # rest) d =
     (if ch \<ge> startIndex token \<and> ch < endIndex token then
        (if truthy (matchReplace_scope mr) then
           tokens_loop msk mr ch rest (scopes_loop (the (matchReplace_scope mr)) (scopes token) d)
         else if truthy (m_scope msk) then
           tokens_loop msk mr ch rest (scopes_loop (the (m_scope msk)) (scopes token) d)
         else tokens_loop msk mr ch rest d)
      else tokens_loop msk mr ch rest d)"

text \<open>\<^verbatim>\<open>this.scopedDocument?.getTokens(n)\<close>.\<close>

definition scopedDocument_getTokens :: "'st scoped_document option \<Rightarrow> nat \<Rightarrow> token list option" where
  "scopedDocument_getTokens sd n = (case sd of None \<Rightarrow> None | Some d \<Rightarrow> getTokens d n)"

text \<open>
  The scope check that one selection runs when \<^verbatim>\<open>decorateSymbol\<close> is still false: the
  statement \<^verbatim>\<open>if (mask.scope || matchReplace?.scope) { ... } else { decorateSymbol = true }\<close>.
\<close>

definition scope_check ::
  "'st scoped_document option \<Rightarrow> mask \<Rightarrow> match_replace option \<Rightarrow> position \<Rightarrow> bool \<Rightarrow> bool" where
  "scope_check sd msk mr startPos d =
     (if truthy (m_scope msk) \<or> truthy (matchReplace_scope mr) then
        (case scopedDocument_getTokens sd (line startPos) of
           None \<Rightarrow> d
         | Some lineTokens \<Rightarrow> tokens_loop msk mr (character startPos) lineTokens d)
      else True)"

text \<open>
  The condition under which a selection reveals the match at \<open>index\<close> of length \<open>len\<close>;
  \<open>index - 1\<close> is \<open>-1\<close> for a match at offset 0.
\<close>

definition selection_reveals :: "string \<Rightarrow> nat \<Rightarrow> nat \<Rightarrow> nat \<Rightarrow> nat \<Rightarrow> bool" where
  "selection_reveals cursorStyle selectionStart selectionEnd index len =
     (if startsWith cursorStyle ''line'' then
        selectionEnd \<ge> index \<and> selectionStart \<le> index + len
      else
        int selectionEnd \<ge> int index - 1 \<and> selectionStart \<le> index + len)"

text \<open>
  The loop \<^verbatim>\<open>for (const selection of this.editor.selections)\<close>, with its \<^verbatim>\<open>break\<close> (the
  result is false) and its \<^verbatim>\<open>continue\<close>.
\<close>

fun selections_loop ::
  "'st scoped_document option \<Rightarrow> text_document \<Rightarrow> string \<Rightarrow> mask \<Rightarrow> match_replace option \<Rightarrow>
   nat \<Rightarrow> nat \<Rightarrow> position \<Rightarrow> selection list \<Rightarrow> bool \<Rightarrow> bool" where
  "selections_loop sd doc cursorStyle msk mr index len startPos [] d = d"
| "selections_loop sd doc cursorStyle msk mr index len startPos (selection # rest) d =
     (let selectionStart0 = offsetAt doc (sel_start selection);
          selectionEnd0 = offsetAt doc (sel_end selection);
          selectionStart = (if selectionEnd0 < selectionStart0 then selectionEnd0 else selectionStart0);
          selectionEnd = (if selectionEnd0 < selectionStart0 then selectionStart0 else selectionEnd0)
      in if selection_reveals cursorStyle selectionStart selectionEnd index len then False
         else if d then selections_loop sd doc cursorStyle msk mr index len startPos rest d
         else selections_loop sd doc cursorStyle msk mr index len startPos rest
                (scope_check sd msk mr startPos d))"

text \<open>
  \<^verbatim>\<open>matchReplace\<close>: the entry of a replacement map for the matched text, if the mask has a
  map and the map has the text.
\<close>

definition find_matchReplace :: "mask \<Rightarrow> string \<Rightarrow> match_replace option" where
  "find_matchReplace msk match0 =
     (case m_text msk of
        Some (TextMap replacements) \<Rightarrow> replacements match0
      | _ \<Rightarrow> None)"

text \<open>The value of \<^verbatim>\<open>decorateSymbol\<close> after the loop over the selections.\<close>

definition decorateSymbol ::
  "'st scoped_document option \<Rightarrow> text_editor \<Rightarrow> string \<Rightarrow> mask \<Rightarrow> string \<Rightarrow> nat \<times> nat \<Rightarrow> bool" where
  "decorateSymbol sd ed cursorStyle msk text m =
     (case m of (index, len) \<Rightarrow>
        selections_loop sd (document ed) cursorStyle msk
          (find_matchReplace msk (take len (drop index text))) index len
          (positionAt (document ed) index) (selections ed) False)"

subsection \<open>\<^verbatim>\<open>apply\<close>\<close>

text \<open>
  What the scanning loop changes: the local maps \<^verbatim>\<open>decorationOptions\<close> and
  \<^verbatim>\<open>matchReplaceKeys\<close> (a \<^verbatim>\<open>Set\<close>, iterated in insertion order) and, through
  \<^verbatim>\<open>initialize\<close>, the controller.
\<close>

record 'st scan_state =
  decorationOptions :: "string \<rightharpoonup> decoration_options list"
  matchReplaceKeys :: "string list"
  controller :: "'st mask_controller"

text \<open>\<^verbatim>\<open>matchReplace?.text\<close> as a condition.\<close>

definition matchReplace_text_truthy :: "match_replace option \<Rightarrow> bool" where
  "matchReplace_text_truthy mr = (case mr of None \<Rightarrow> False | Some r \<Rightarrow> r_text r \<noteq> [])"

text \<open>The key under which a decorated match is collected.\<close>

definition decorationKey :: "string \<Rightarrow> match_replace option \<Rightarrow> string" where
  "decorationKey src mr =
     (if matchReplace_text_truthy mr then src @ ''@@@'' @ r_text (the mr) else src)"

text \<open>The mask that \<^verbatim>\<open>apply\<close> passes to \<^verbatim>\<open>initialize\<close> for an entry of the map.\<close>

definition mask_of_matchReplace :: "match_replace \<Rightarrow> mask" where
  "mask_of_matchReplace r =
     \<lparr>backgroundColor = backgroundColor r, border = border r, borderColor = borderColor r,
      color = color r, fontStyle = fontStyle r, fontWeight = fontWeight r, css = css r,
      m_text = Some (TextString (r_text r)), m_scope = r_scope r, m_hover = None\<rparr>"

text \<open>The body of \<^verbatim>\<open>if (decorateSymbol) { ... }\<close> for the match \<open>(index, len)\<close>.\<close>

definition collect ::
  "text_editor \<Rightarrow> string \<Rightarrow> mask \<Rightarrow> string \<Rightarrow> nat \<times> nat \<Rightarrow> 'st scan_state \<Rightarrow> 'st scan_state" where
  "collect ed src msk text m st =
     (case m of (index, len) \<Rightarrow>
        (let startPos = positionAt (document ed) index;
             endPos = positionAt (document ed) (index + len);
             matchReplace = find_matchReplace msk (take len (drop index text));
             key = decorationKey src matchReplace;
             st1 = (if matchReplace_text_truthy matchReplace \<and> key \<notin> set (matchReplaceKeys st) then
                      st\<lparr>matchReplaceKeys := matchReplaceKeys st @ [key],
                         controller := initialize key (mask_of_matchReplace (the matchReplace))
                                         (controller st)\<rparr>
                    else st);
             hover = (if matchReplace_text_truthy matchReplace then r_hover (the matchReplace)
                      else m_hover msk);
             previous = (case decorationOptions st1 key of None \<Rightarrow> [] | Some opts \<Rightarrow> opts)
         in st1\<lparr>decorationOptions :=
                  (decorationOptions st1)
                    (key \<mapsto> previous @ [\<lparr>d_range = (startPos, endPos), d_hoverMessage = hover\<rparr>])\<rparr>))"

text \<open>The body of the \<^verbatim>\<open>while\<close> loop for a match of positive length.\<close>

definition match_step ::
  "text_editor \<Rightarrow> string \<Rightarrow> string \<Rightarrow> mask \<Rightarrow> string \<Rightarrow> nat \<times> nat \<Rightarrow> 'st scan_state \<Rightarrow> 'st scan_state" where
  "match_step ed src cursorStyle msk text m st =
     (if decorateSymbol (scopedDocument (controller st)) ed cursorStyle msk text m
      then collect ed src msk text m st else st)"

text \<open>
  The loop \<^verbatim>\<open>while (match = pattern.exec(text))\<close>. It is entered with whatever
  \<open>lastIndex\<close> the expression has, and left at a failed search or at a match of length 0;
  \<open>None\<close> is a loop that never ends.
\<close>

partial_function (option) scan ::
  "text_editor \<Rightarrow> string \<Rightarrow> mask \<Rightarrow> string \<Rightarrow> regexp \<Rightarrow> 'st scan_state \<Rightarrow>
   (regexp \<times> 'st scan_state) option" where
  "scan ed cursorStyle msk text pattern st =
     (case exec pattern text of
        (None, pattern') \<Rightarrow> Some (pattern', st)
      | (Some m, pattern') \<Rightarrow>
          if snd m = 0 then Some (pattern', st)
          else scan ed cursorStyle msk text pattern'
                 (match_step ed (source pattern) cursorStyle msk text m st))"

text \<open>\<^verbatim>\<open>decorationOptions.get(key) || []\<close>.\<close>

definition get_or_empty :: "(string \<rightharpoonup> decoration_options list) \<Rightarrow> string \<Rightarrow> decoration_options list" where
  "get_or_empty opts key = (case opts key of None \<Rightarrow> [] | Some l \<Rightarrow> l)"

text \<open>The loop \<^verbatim>\<open>for (const decorationKey of matchReplaceKeys.values())\<close>.\<close>

definition render_key ::
  "(string \<rightharpoonup> decoration_options list) \<Rightarrow> string \<Rightarrow> 'st mask_controller \<Rightarrow> 'st mask_controller" where
  "render_key opts key c =
     (case map_of (decorationTypeMap c) key of
        None \<Rightarrow> c
      | Some decorationType \<Rightarrow>
          editor_setDecorations decorationType (get_or_empty opts key) c)"

fun render_keys ::
  "(string \<rightharpoonup> decoration_options list) \<Rightarrow> string list \<Rightarrow> 'st mask_controller \<Rightarrow> 'st mask_controller" where
  "render_keys opts [] c = c"
| "render_keys opts (key # keys) c = render_keys opts keys (render_key opts key c)"

text \<open>
  The last loop of \<^verbatim>\<open>apply\<close>, over \<^verbatim>\<open>this.decorationTypeMap.keys()\<close>. The loop deletes
  only the key it is visiting, so the live iterator visits every key the map had when the
  loop began: the list \<open>keys\<close>.
\<close>

definition evict_key :: "string \<Rightarrow> string list \<Rightarrow> string \<Rightarrow> 'st mask_controller \<Rightarrow> 'st mask_controller" where
  "evict_key src mrKeys key c =
     (if key \<noteq> src \<and> key \<notin> set mrKeys then
        (let c1 = (case map_of (decorationTypeMap c) key of
                     None \<Rightarrow> c
                   | Some decorationType \<Rightarrow> editor_setDecorations decorationType [] c)
         in c1\<lparr>decorationTypeMap := AList.delete key (decorationTypeMap c1)\<rparr>)
      else c)"

fun evict_keys :: "string \<Rightarrow> string list \<Rightarrow> string list \<Rightarrow> 'st mask_controller \<Rightarrow> 'st mask_controller" where
  "evict_keys src mrKeys [] c = c"
| "evict_keys src mrKeys (key # keys) c = evict_keys src mrKeys keys (evict_key src mrKeys key c)"

text \<open>\<^verbatim>\<open>vscode.workspace.getConfiguration().get("editor.cursorStyle") || ""\<close>.\<close>

definition cursorStyle_of :: "'st mask_controller \<Rightarrow> string" where
  "cursorStyle_of c = (case cursorStyleSetting c of None \<Rightarrow> [] | Some s \<Rightarrow> s)"

text \<open>The state in which \<^verbatim>\<open>apply\<close> enters the scanning loop.\<close>

definition scan_start :: "regexp \<Rightarrow> mask \<Rightarrow> 'st mask_controller \<Rightarrow> 'st scan_state" where
  "scan_start pattern msk c =
     \<lparr>decorationOptions = Map.empty, matchReplaceKeys = [],
      controller = (if \<not> has (decorationTypeMap c) (source pattern)
                    then initialize (source pattern) msk c else c)\<rparr>"

text \<open>What \<^verbatim>\<open>apply\<close> does after the scanning loop.\<close>

definition commit :: "string \<Rightarrow> 'st scan_state \<Rightarrow> 'st mask_controller" where
  "commit src st =
     (let c1 = render_keys (decorationOptions st) (matchReplaceKeys st) (controller st);
          c2 = render_key (decorationOptions st) src c1
      in evict_keys src (matchReplaceKeys st) (map fst (decorationTypeMap c2)) c2)"

text \<open>
  \<^verbatim>\<open>apply(pattern, mask)\<close>: the expression and the controller after the call, \<open>None\<close> if
  the call does not return.
\<close>

definition apply_mask ::
  "regexp \<Rightarrow> mask \<Rightarrow> 'st mask_controller \<Rightarrow> (regexp \<times> 'st mask_controller) option" where
  "apply_mask pattern msk c =
     (case editor c of
        None \<Rightarrow> Some (pattern, c)
      | Some ed \<Rightarrow>
          (case scan ed (cursorStyle_of c) msk (getText (document ed)) pattern
                  (scan_start pattern msk c) of
             None \<Rightarrow> None
           | Some (pattern', st) \<Rightarrow> Some (pattern', commit (source pattern) st)))"

section \<open>The specification's notions\<close>

text \<open>
  A scope string is within the filter \<open>S\<close> iff it equals \<open>S\<close> or starts with \<open>S\<close>
  followed by a dot.
\<close>

definition within_scope :: "string \<Rightarrow> string \<Rightarrow> bool" where
  "within_scope S s = (s = S \<or> prefix (S @ ''.'') s)"

text \<open>
  The scope filter a match is evaluated under: the one of its entry in the replacement
  map if the entry specifies one, else the uniform one of the mask if the mask specifies
  one; a filter that is the empty string specifies nothing.
\<close>

definition scope_filter :: "mask \<Rightarrow> match_replace option \<Rightarrow> string option" where
  "scope_filter msk mr =
     (if truthy (matchReplace_scope mr) then matchReplace_scope mr
      else if truthy (m_scope msk) then m_scope msk
      else None)"

text \<open>Some token that contains column \<open>ch\<close> has a scope string within \<open>S\<close>.\<close>

definition token_within :: "token list \<Rightarrow> nat \<Rightarrow> string \<Rightarrow> bool" where
  "token_within toks ch S =
     (\<exists>t \<in> set toks. startIndex t \<le> ch \<and> ch < endIndex t \<and> (\<exists>s \<in> set (scopes t). within_scope S s))"

text \<open>
  The reveal rule for one selection: the selection, its two ends in either order,
  intersects the character range of the match (both bounds included, so that a caret on
  either edge counts); the start bound of the match is the match's own for a caret style
  that begins with \<open>line\<close> and one character to the left of it for every other style
  (\<open>block\<close>, \<open>underline\<close> and their variants).
\<close>

definition reveals :: "string \<Rightarrow> text_document \<Rightarrow> nat \<times> nat \<Rightarrow> selection \<Rightarrow> bool" where
  "reveals cursorStyle doc m sel =
     (case m of (index, len) \<Rightarrow>
        (let a = offsetAt doc (sel_start sel);
             b = offsetAt doc (sel_end sel);
             first = (if prefix ''line'' cursorStyle then int index else int index - 1)
         in first \<le> int (max a b) \<and> min a b \<le> index + len))"

text \<open>
  The collapsed rule of the specification: decorate iff no selection reveals the match
  and the scope filter, if there is one, matches the token at the start of the match.
\<close>

definition decorate_rule ::
  "'st scoped_document option \<Rightarrow> text_editor \<Rightarrow> string \<Rightarrow> mask \<Rightarrow> string \<Rightarrow> nat \<times> nat \<Rightarrow> bool" where
  "decorate_rule sd ed cursorStyle msk text m =
     (let startPos = positionAt (document ed) (fst m);
          mr = find_matchReplace msk (take (snd m) (drop (fst m) text))
      in \<not> (\<exists>sel \<in> set (selections ed). reveals cursorStyle (document ed) m sel) \<and>
         (case scope_filter msk mr of
            None \<Rightarrow> True
          | Some S \<Rightarrow>
              (case scopedDocument_getTokens sd (line startPos) of
                 None \<Rightarrow> False
               | Some toks \<Rightarrow> token_within toks (character startPos) S)))"

text \<open>
  What the engine of the host guarantees of a search from offset \<open>k\<close>: the match it
  reports does not begin before \<open>k\<close> and lies within the text.
\<close>

definition sound_matcher :: "regexp \<Rightarrow> bool" where
  "sound_matcher re =
     (\<forall>text k index len. matcher re text k = Some (index, len) \<longrightarrow> k \<le> index \<and> index + len \<le> length text)"

text \<open>
  The matches that the scanning loop processes, in order, when it is entered with the
  expression \<open>re\<close>: the results of the successive calls of \<open>exec\<close> up to the first
  failure or the first match of length 0. The first argument bounds the number of calls;
  \<open>Suc (length text)\<close> calls are never all used with a sound engine (lemma
  \<open>scan_matches\<close> below).
\<close>

fun matches_upto :: "nat \<Rightarrow> regexp \<Rightarrow> string \<Rightarrow> (nat \<times> nat) list" where
  "matches_upto 0 re text = []"
| "matches_upto (Suc n) re text =
     (case exec re text of
        (None, re') \<Rightarrow> []
      | (Some m, re') \<Rightarrow> if snd m = 0 then [] else m # matches_upto n re' text)"

definition matches :: "regexp \<Rightarrow> string \<Rightarrow> (nat \<times> nat) list" where
  "matches re text = matches_upto (Suc (length text)) re text"

text \<open>
  The key and the decoration options that \<open>collect\<close> computes for a match, each as a
  function of the match.
\<close>

definition match_key :: "string \<Rightarrow> mask \<Rightarrow> string \<Rightarrow> nat \<times> nat \<Rightarrow> string" where
  "match_key src msk text m =
     decorationKey src (find_matchReplace msk (take (snd m) (drop (fst m) text)))"

definition match_derived :: "mask \<Rightarrow> string \<Rightarrow> nat \<times> nat \<Rightarrow> bool" where
  "match_derived msk text m =
     matchReplace_text_truthy (find_matchReplace msk (take (snd m) (drop (fst m) text)))"

definition match_range :: "text_editor \<Rightarrow> nat \<times> nat \<Rightarrow> range" where
  "match_range ed m = (positionAt (document ed) (fst m), positionAt (document ed) (fst m + snd m))"

definition match_decoration :: "text_editor \<Rightarrow> mask \<Rightarrow> string \<Rightarrow> nat \<times> nat \<Rightarrow> decoration_options" where
  "match_decoration ed msk text m =
     (let mr = find_matchReplace msk (take (snd m) (drop (fst m) text))
      in \<lparr>d_range = match_range ed m,
          d_hoverMessage = (if matchReplace_text_truthy mr then r_hover (the mr) else m_hover msk)\<rparr>)"

text \<open>
  What the editor of the controller shows for the decoration type with handle \<open>h\<close>, and
  what it shows for the decoration type that the cache holds under a key (\<open>None\<close> when
  the cache has no such key).
\<close>

definition shown :: "'st mask_controller \<Rightarrow> nat \<Rightarrow> decoration_options list" where
  "shown c h = (case editor c of None \<Rightarrow> [] | Some ed \<Rightarrow> decorations ed h)"

definition rendered :: "'st mask_controller \<Rightarrow> string \<Rightarrow> decoration_options list option" where
  "rendered c key = map_option (\<lambda>dt. shown c (handle dt)) (map_of (decorationTypeMap c) key)"

text \<open>
  The invariant of the cache: a key occurs once (it is a \<^verbatim>\<open>Map\<close>), the decoration types
  under different keys are different objects, and every one of them was created by the
  host before now.
\<close>

definition wf_controller :: "'st mask_controller \<Rightarrow> bool" where
  "wf_controller c =
     (distinct (map fst (decorationTypeMap c)) \<and>
      distinct (map (\<lambda>p. handle (snd p)) (decorationTypeMap c)) \<and>
      list_all (\<lambda>p. handle (snd p) < createdDecorationTypes c) (decorationTypeMap c))"

text \<open>
  The matches that a call of \<open>apply_mask\<close> decorates, in the order of the scan, and the
  decoration options it collects under a key.
\<close>

definition decorated :: "'st mask_controller \<Rightarrow> text_editor \<Rightarrow> mask \<Rightarrow> regexp \<Rightarrow> (nat \<times> nat) list" where
  "decorated c ed msk p =
     filter (decorateSymbol (scopedDocument c) ed (cursorStyle_of c) msk (getText (document ed)))
       (matches p (getText (document ed)))"

definition derived_keys :: "'st mask_controller \<Rightarrow> text_editor \<Rightarrow> mask \<Rightarrow> regexp \<Rightarrow> string set" where
  "derived_keys c ed msk p =
     match_key (source p) msk (getText (document ed)) `
       {m \<in> set (decorated c ed msk p). match_derived msk (getText (document ed)) m}"

definition collected :: "'st mask_controller \<Rightarrow> text_editor \<Rightarrow> mask \<Rightarrow> regexp \<Rightarrow> string \<Rightarrow> decoration_options list" where
  "collected c ed msk p key =
     map (match_decoration ed msk (getText (document ed)))
       (filter (\<lambda>m. match_key (source p) msk (getText (document ed)) m = key) (decorated c ed msk p))"

text \<open>
  The rule stack at the end of line \<open>i\<close> when the lines are tokenized in order, each with
  the rule stack at the end of the line before it and the first with none.
\<close>

fun line_state :: "'st grammar \<Rightarrow> text_document \<Rightarrow> nat \<Rightarrow> 'st" where
  "line_state g doc 0 = ruleStack (tokenizeLine g (lineAt_text doc 0) None)"
| "line_state g doc (Suc i) =
     ruleStack (tokenizeLine g (lineAt_text doc (Suc i)) (Some (line_state g doc i)))"

section \<open>Sample data\<close>

text \<open>
  A document of one line, a caret, an editor with given selections, masks of the three
  shapes, a grammar, and two engines: one for a pattern that matches a single character
  out of a set, one for a pattern that matches every run of a character, the empty run
  included.
\<close>

definition sample_document :: "string \<Rightarrow> text_document" where
  "sample_document text =
     \<lparr>getText = text, positionAt = (\<lambda>n. \<lparr>line = 0, character = n\<rparr>), offsetAt = character,
      lineAt_text = (\<lambda>n. if n = 0 then text else []), lineCount = 1\<rparr>"

definition caret :: "nat \<Rightarrow> selection" where
  "caret n = \<lparr>sel_start = \<lparr>line = 0, character = n\<rparr>, sel_end = \<lparr>line = 0, character = n\<rparr>\<rparr>"

definition sample_editor :: "string \<Rightarrow> selection list \<Rightarrow> text_editor" where
  "sample_editor text sels = \<lparr>document = sample_document text, selections = sels, decorations = (\<lambda>h. [])\<rparr>"

definition sample_mask :: "mask_text option \<Rightarrow> string option \<Rightarrow> mask" where
  "sample_mask t s =
     \<lparr>backgroundColor = None, border = None, borderColor = None, color = None,
      fontStyle = None, fontWeight = None, css = None, m_text = t, m_scope = s, m_hover = None\<rparr>"

definition sample_entry :: "string \<Rightarrow> string option \<Rightarrow> match_replace" where
  "sample_entry t s =
     \<lparr>backgroundColor = None, border = None, borderColor = None, color = None,
      fontStyle = None, fontWeight = None, css = None, r_scope = s, r_text = t, r_hover = None\<rparr>"

definition sample_map :: "string \<rightharpoonup> match_replace" where
  "sample_map = [''a'' \<mapsto> sample_entry ''x'' None, ''b'' \<mapsto> sample_entry ''y'' None]"

text \<open>
  The grammar gives every line the same two tokens: columns 0 to 1 are a comparison
  operator, columns 1 to 5 are not. The rule stack at the end of a line is the number of
  characters read so far.
\<close>

definition sample_grammar :: "nat grammar" where
  "sample_grammar =
     \<lparr>tokenizeLine = (\<lambda>text prev.
        \<lparr>tokens = [\<lparr>startIndex = 0, endIndex = 1, scopes = [''source.ts'', ''keyword.operator.comparison'']\<rparr>,
                   \<lparr>startIndex = 1, endIndex = 5, scopes = [''source.ts'', ''keyword.operatorx'']\<rparr>],
         ruleStack = (case prev of None \<Rightarrow> 0 | Some n \<Rightarrow> n) + length text\<rparr>)\<rparr>"

definition sample_scoped :: "string \<Rightarrow> nat scoped_document" where
  "sample_scoped text =
     \<lparr>sd_document = Some (sample_document text), sd_grammar = Some sample_grammar, grammarState = Map.empty\<rparr>"

fun first_index :: "(char \<Rightarrow> bool) \<Rightarrow> string \<Rightarrow> nat \<Rightarrow> nat option" where
  "first_index P [] k = None"
| "first_index P (c # cs) k = (if P c then Some k else first_index P cs (Suc k))"

definition char_regexp :: "string \<Rightarrow> string \<Rightarrow> regexp" where
  "char_regexp src cs =
     \<lparr>source = src, lastIndex = 0,
      matcher = (\<lambda>text k. map_option (\<lambda>i. (i, 1)) (first_index (\<lambda>c. c \<in> set cs) (drop k text) k))\<rparr>"

definition run_regexp :: "string \<Rightarrow> char \<Rightarrow> regexp" where
  "run_regexp src a =
     \<lparr>source = src, lastIndex = 0,
      matcher = (\<lambda>text k. if k \<le> length text
                            then Some (k, length (takeWhile (\<lambda>c. c = a) (drop k text)))
                            else None)\<rparr>"

definition sample_controller ::
  "text_editor option \<Rightarrow> nat scoped_document option \<Rightarrow> string option \<Rightarrow> nat mask_controller" where
  "sample_controller ed sd style =
     \<lparr>decorationTypeMap = [], scopedDocument = sd, editor = ed, createdDecorationTypes = 0,
      cursorStyleSetting = style\<rparr>"

text \<open>A document of several lines, joined by line feeds.\<close>

fun position_in :: "string list \<Rightarrow> nat \<Rightarrow> nat \<Rightarrow> position" where
  "position_in [] ln n = \<lparr>line = ln, character = 0\<rparr>"
| "position_in [l] ln n = \<lparr>line = ln, character = min n (length l)\<rparr>"
| "position_in (l # ls) ln n =
     (if n \<le> length l then \<lparr>line = ln, character = n\<rparr>
      else position_in ls (Suc ln) (n - Suc (length l)))"

definition offset_in :: "string list \<Rightarrow> position \<Rightarrow> nat" where
  "offset_in ls q = sum_list (map (\<lambda>l. Suc (length l)) (take (line q) ls)) + character q"

fun join_lines :: "string list \<Rightarrow> string" where
  "join_lines [] = []"
| "join_lines [l] = l"
| "join_lines (l # ls) = l @ CHR 0x0A # join_lines ls"

definition lines_document :: "string list \<Rightarrow> text_document" where
  "lines_document ls =
     \<lparr>getText = join_lines ls, positionAt = position_in ls 0, offsetAt = offset_in ls,
      lineAt_text = (\<lambda>n. if n < length ls then ls ! n else []), lineCount = length ls\<rparr>"

text \<open>
  A controller that holds one decoration type from an earlier call, under the key
  \<open>old\<close>, with one range shown for it.
\<close>

definition stale_controller :: "text_editor option \<Rightarrow> nat mask_controller" where
  "stale_controller ed =
     \<lparr>decorationTypeMap = [(''old'', \<lparr>handle = 0, options = render_options_of (sample_mask None None)\<rparr>)],
      scopedDocument = None,
      editor = map_option (\<lambda>e. e\<lparr>decorations :=
                 (\<lambda>h. if h = 0 then [\<lparr>d_range = (\<lparr>line = 0, character = 0\<rparr>, \<lparr>line = 0, character = 1\<rparr>),
                                        d_hoverMessage = None\<rparr>] else [])\<rparr>) ed,
      createdDecorationTypes = 1, cursorStyleSetting = Some ''line''\<rparr>"

section \<open>Properties\<close>

subsection \<open>The decision for one match\<close>

text \<open>The loops over the scopes, the tokens and the selections, in closed form.\<close>

lemma within_scope_iff:
  "(startsWith s f \<and> (length (drop (length f) s) = 0 \<or> startsWith (drop (length f) s) ''.'')) = within_scope f s"
  unfolding startsWith_def within_scope_def
  by (auto simp: prefix_def)

lemma scopes_loop_eq: "scopes_loop f ss d = (d \<or> (\<exists>s \<in> set ss. within_scope f s))"
proof (induction ss)
  case Nil show ?case by simp
next
  case (Cons s ss)
  show ?case using Cons.IH within_scope_iff[of s f]
    by (auto simp: Let_def)
qed

lemma tokens_loop_eq:
  "tokens_loop msk mr ch toks d =
     (d \<or> (case scope_filter msk mr of None \<Rightarrow> False | Some S \<Rightarrow> token_within toks ch S))"
proof (induction toks arbitrary: d)
  case Nil show ?case by (simp add: token_within_def split: option.splits)
next
  case (Cons t toks)
  show ?case
    by (auto simp: Cons.IH scopes_loop_eq scope_filter_def token_within_def truthy_def split: option.splits)
qed

lemma scope_check_False:
  "scope_check sd msk mr startPos False =
     (case scope_filter msk mr of
        None \<Rightarrow> True
      | Some S \<Rightarrow>
          (case scopedDocument_getTokens sd (line startPos) of
             None \<Rightarrow> False
           | Some toks \<Rightarrow> token_within toks (character startPos) S))"
  by (auto simp: scope_check_def tokens_loop_eq scope_filter_def truthy_def split: option.splits)

lemma selection_reveals_eq:
  "selection_reveals cursorStyle
     (if offsetAt doc (sel_end sel) < offsetAt doc (sel_start sel) then offsetAt doc (sel_end sel) else offsetAt doc (sel_start sel))
     (if offsetAt doc (sel_end sel) < offsetAt doc (sel_start sel) then offsetAt doc (sel_start sel) else offsetAt doc (sel_end sel))
     index len = reveals cursorStyle doc (index, len) sel"
  by (auto simp: selection_reveals_def reveals_def startsWith_def Let_def max_def min_def)

lemma selections_loop_eq:
  "selections_loop sd doc cursorStyle msk mr index len startPos sels d =
     ((\<forall>sel \<in> set sels. \<not> reveals cursorStyle doc (index, len) sel) \<and>
      (d \<or> (sels \<noteq> [] \<and> scope_check sd msk mr startPos False)))"
proof (induction sels arbitrary: d)
  case Nil show ?case by simp
next
  case (Cons sel sels)
  show ?case
    using selection_reveals_eq[of cursorStyle doc sel index len]
    by (cases d; cases "scope_check sd msk mr startPos False"; simp add: Cons.IH Let_def; blast?)
qed

lemma decorateSymbol_eq:
  "decorateSymbol sd ed cursorStyle msk text m =
     (selections ed \<noteq> [] \<and> decorate_rule sd ed cursorStyle msk text m)"
  by (cases m) (auto simp: decorateSymbol_def decorate_rule_def selections_loop_eq scope_check_False Let_def)

subsection \<open>The scanning loop as a fold over the matches\<close>


lemma exec_source: "exec re text = (r, re') \<Longrightarrow> source re' = source re \<and> matcher re' = matcher re"
  by (auto simp: exec_def split: if_splits option.splits)

lemma exec_sound: "exec re text = (r, re') \<Longrightarrow> sound_matcher re \<Longrightarrow> sound_matcher re'"
  by (auto simp: exec_def sound_matcher_def split: if_splits option.splits)

lemma exec_Some:
  assumes "exec re text = (Some (i, n), re')" "sound_matcher re"
  shows "lastIndex re \<le> i \<and> i + n \<le> length text \<and> lastIndex re' = i + n \<and> lastIndex re \<le> length text"
  using assms by (auto simp: exec_def sound_matcher_def split: if_splits option.splits)

lemma scan_fold_upto:
  "sound_matcher re \<Longrightarrow> Suc (length text) - lastIndex re \<le> n \<Longrightarrow>
   \<exists>re'. scan ed cs msk text re st =
          Some (re', fold (match_step ed (source re) cs msk text) (matches_upto n re text) st)"
proof (induction n arbitrary: re st)
  case 0
  then have "lastIndex re > length text" by simp
  then show ?case by (subst scan.simps) (simp add: exec_def)
next
  case (Suc n)
  obtain r re1 where ex: "exec re text = (r, re1)" by (cases "exec re text")
  show ?case
  proof (cases r)
    case None
    with ex show ?thesis by (subst scan.simps) simp
  next
    case (Some m)
    obtain i k where m: "m = (i, k)" by (cases m)
    show ?thesis
    proof (cases "k = 0")
      case True
      with ex Some m show ?thesis by (subst scan.simps) simp
    next
      case False
      have b: "lastIndex re \<le> i" "i + k \<le> length text" "lastIndex re1 = i + k"
        using exec_Some[of re "text" i k re1] ex Some m Suc.prems(1) by auto
      have s1: "sound_matcher re1" using exec_sound[OF ex Suc.prems(1)] .
      have s2: "Suc (length text) - lastIndex re1 \<le> n" using b False Suc.prems(2) by linarith
      obtain re' where "scan ed cs msk text re1 (match_step ed (source re) cs msk text m st) =
          Some (re', fold (match_step ed (source re1) cs msk text) (matches_upto n re1 text) (match_step ed (source re) cs msk text m st))"
        using Suc.IH[OF s1 s2, of "match_step ed (source re) cs msk text m st"] by blast
      moreover have "source re1 = source re" using exec_source[OF ex] by simp
      ultimately show ?thesis using ex Some m False
        by (subst scan.simps) simp
    qed
  qed
qed

lemma scan_matches:
  "sound_matcher re \<Longrightarrow>
   \<exists>re'. scan ed cs msk text re st =
          Some (re', fold (match_step ed (source re) cs msk text) (matches re text) st)"
  unfolding matches_def by (rule scan_fold_upto) simp_all

subsection \<open>initialize\<close>

lemma update_absent: "map_of al k = None \<Longrightarrow> AList.update k v al = al @ [(k, v)]"
  by (induction al) (auto split: if_splits)

lemma initialize_has: "has (decorationTypeMap c) k \<Longrightarrow> initialize k msk c = c"
  by (simp add: initialize_def)

lemma initialize_new:
  "\<not> has (decorationTypeMap c) k \<Longrightarrow>
   initialize k msk c =
     c\<lparr>decorationTypeMap := decorationTypeMap c @
          [(k, \<lparr>handle = createdDecorationTypes c, options = render_options_of msk\<rparr>)],
       createdDecorationTypes := Suc (createdDecorationTypes c)\<rparr>"
  by (simp add: initialize_def has_def update_absent)

lemma initialize_frame [simp]:
  "scopedDocument (initialize k msk c) = scopedDocument c"
  "editor (initialize k msk c) = editor c"
  "cursorStyleSetting (initialize k msk c) = cursorStyleSetting c"
  by (simp_all add: initialize_def)

lemma initialize_keys:
  "fst ` set (decorationTypeMap (initialize k msk c)) = insert k (fst ` set (decorationTypeMap c))"
  by (cases "has (decorationTypeMap c) k")
     (auto simp: initialize_new initialize_has has_def map_of_eq_None_iff)

lemma initialize_map_of:
  "map_of (decorationTypeMap c) k' = Some dt \<Longrightarrow>
   map_of (decorationTypeMap (initialize k msk c)) k' = Some dt"
  by (cases "has (decorationTypeMap c) k")
     (auto simp: initialize_new initialize_has has_def map_add_Some_iff)

lemma initialize_wf: "wf_controller c \<Longrightarrow> wf_controller (initialize k msk c)"
proof (cases "has (decorationTypeMap c) k")
  case True
  assume "wf_controller c" with True show ?thesis by (simp add: initialize_has)
next
  case False
  assume wf: "wf_controller c"
  from False have notin: "k \<notin> fst ` set (decorationTypeMap c)"
    by (simp add: has_def map_of_eq_None_iff)
  from wf have lt: "\<forall>p \<in> set (decorationTypeMap c). handle (snd p) < createdDecorationTypes c"
    by (simp add: wf_controller_def list_all_iff)
  then have fresh: "createdDecorationTypes c \<notin> (\<lambda>p. handle (snd p)) ` set (decorationTypeMap c)"
    by auto
  show ?thesis
    using wf notin fresh lt
    by (auto simp: initialize_new[OF False] wf_controller_def list_all_iff less_Suc_eq)
qed

lemma initialize_shown [simp]: "shown (initialize k msk c) = shown c"
  by (rule ext) (simp add: shown_def)

subsection \<open>One step of the scan\<close>

lemma collect_mrk:
  "matchReplaceKeys (collect ed src msk text m st) =
     (if match_derived msk text m \<and> match_key src msk text m \<notin> set (matchReplaceKeys st)
      then matchReplaceKeys st @ [match_key src msk text m] else matchReplaceKeys st)"
  by (cases m) (simp add: collect_def match_derived_def match_key_def Let_def)

lemma collect_controller:
  "controller (collect ed src msk text m st) =
     (if match_derived msk text m \<and> match_key src msk text m \<notin> set (matchReplaceKeys st)
      then initialize (match_key src msk text m)
             (mask_of_matchReplace (the (find_matchReplace msk (take (snd m) (drop (fst m) text)))))
             (controller st)
      else controller st)"
  by (cases m) (simp add: collect_def match_derived_def match_key_def Let_def)

lemma collect_opts:
  "get_or_empty (decorationOptions (collect ed src msk text m st)) k =
     get_or_empty (decorationOptions st) k @
     (if match_key src msk text m = k then [match_decoration ed msk text m] else [])"
  by (cases m)
     (simp add: collect_def match_derived_def match_key_def match_decoration_def match_range_def
        get_or_empty_def Let_def)

lemma step_mrk:
  "matchReplaceKeys (match_step ed src cs msk text m st) =
     (if decorateSymbol (scopedDocument (controller st)) ed cs msk text m \<and>
         match_derived msk text m \<and> match_key src msk text m \<notin> set (matchReplaceKeys st)
      then matchReplaceKeys st @ [match_key src msk text m] else matchReplaceKeys st)"
  by (simp add: match_step_def collect_mrk)

lemma step_controller:
  "controller (match_step ed src cs msk text m st) =
     (if decorateSymbol (scopedDocument (controller st)) ed cs msk text m \<and>
         match_derived msk text m \<and> match_key src msk text m \<notin> set (matchReplaceKeys st)
      then initialize (match_key src msk text m)
             (mask_of_matchReplace (the (find_matchReplace msk (take (snd m) (drop (fst m) text)))))
             (controller st)
      else controller st)"
  by (simp add: match_step_def collect_controller)

lemma step_opts:
  "get_or_empty (decorationOptions (match_step ed src cs msk text m st)) k =
     get_or_empty (decorationOptions st) k @
     (if decorateSymbol (scopedDocument (controller st)) ed cs msk text m \<and>
         match_key src msk text m = k
      then [match_decoration ed msk text m] else [])"
  by (simp add: match_step_def collect_opts)

lemma step_frame [simp]:
  "scopedDocument (controller (match_step ed src cs msk text m st)) = scopedDocument (controller st)"
  "editor (controller (match_step ed src cs msk text m st)) = editor (controller st)"
  "cursorStyleSetting (controller (match_step ed src cs msk text m st)) = cursorStyleSetting (controller st)"
  "shown (controller (match_step ed src cs msk text m st)) = shown (controller st)"
  by (simp_all add: step_controller)

subsection \<open>The whole scan\<close>

lemma fold_frame [simp]:
  "scopedDocument (controller (fold (match_step ed src cs msk text) ms st)) = scopedDocument (controller st)"
  "editor (controller (fold (match_step ed src cs msk text) ms st)) = editor (controller st)"
  "cursorStyleSetting (controller (fold (match_step ed src cs msk text) ms st)) = cursorStyleSetting (controller st)"
  "shown (controller (fold (match_step ed src cs msk text) ms st)) = shown (controller st)"
  by (induction ms arbitrary: st; simp)+

lemma fold_opts:
  "get_or_empty (decorationOptions (fold (match_step ed src cs msk text) ms st)) k =
     get_or_empty (decorationOptions st) k @
     map (match_decoration ed msk text)
       (filter (\<lambda>m. decorateSymbol (scopedDocument (controller st)) ed cs msk text m \<and>
                    match_key src msk text m = k) ms)"
  by (induction ms arbitrary: st) (simp_all add: step_opts)

lemma fold_mrk_set:
  "set (matchReplaceKeys (fold (match_step ed src cs msk text) ms st)) =
     set (matchReplaceKeys st) \<union>
     match_key src msk text `
       {m \<in> set ms. decorateSymbol (scopedDocument (controller st)) ed cs msk text m \<and>
                    match_derived msk text m}"
proof (induction ms arbitrary: st)
  case Nil show ?case by simp
next
  case (Cons m ms)
  show ?case by (simp add: Cons.IH step_mrk) blast
qed

text \<open>The cache during the scan.\<close>

lemma fold_keys:
  "set (matchReplaceKeys st) \<subseteq> fst ` set (decorationTypeMap (controller st)) \<Longrightarrow>
   fst ` set (decorationTypeMap (controller (fold (match_step ed src cs msk text) ms st))) =
     fst ` set (decorationTypeMap (controller st)) \<union>
     set (matchReplaceKeys (fold (match_step ed src cs msk text) ms st))"
proof (induction ms arbitrary: st)
  case Nil then show ?case by auto
next
  case (Cons m ms)
  let ?st = "match_step ed src cs msk text m st"
  have sub: "set (matchReplaceKeys ?st) \<subseteq> fst ` set (decorationTypeMap (controller ?st))"
    using Cons.prems by (auto simp: step_mrk step_controller initialize_keys)
  have k1: "fst ` set (decorationTypeMap (controller ?st)) =
      fst ` set (decorationTypeMap (controller st)) \<union> set (matchReplaceKeys ?st)"
    using Cons.prems by (auto simp: step_mrk step_controller initialize_keys)
  have mono: "set (matchReplaceKeys ?st) \<subseteq> set (matchReplaceKeys (fold (match_step ed src cs msk text) ms ?st))"
    by (simp add: fold_mrk_set)
  show ?case using Cons.IH[OF sub] k1 mono by auto
qed

lemma fold_map_of:
  "map_of (decorationTypeMap (controller st)) k = Some dt \<Longrightarrow>
   map_of (decorationTypeMap (controller (fold (match_step ed src cs msk text) ms st))) k = Some dt"
proof (induction ms arbitrary: st)
  case Nil then show ?case by simp
next
  case (Cons m ms)
  show ?case
    unfolding fold_simps
    by (rule Cons.IH) (simp add: step_controller initialize_map_of Cons.prems)
qed

lemma fold_wf:
  "wf_controller (controller st) \<Longrightarrow>
   wf_controller (controller (fold (match_step ed src cs msk text) ms st))"
proof (induction ms arbitrary: st)
  case Nil then show ?case by simp
next
  case (Cons m ms)
  show ?case
    unfolding fold_simps
    by (rule Cons.IH) (simp add: step_controller initialize_wf Cons.prems)
qed

subsection \<open>Rendering\<close>

lemma editor_setDecorations_frame [simp]:
  "decorationTypeMap (editor_setDecorations dt l c) = decorationTypeMap c"
  "createdDecorationTypes (editor_setDecorations dt l c) = createdDecorationTypes c"
  "scopedDocument (editor_setDecorations dt l c) = scopedDocument c"
  "cursorStyleSetting (editor_setDecorations dt l c) = cursorStyleSetting c"
  by (simp_all add: editor_setDecorations_def)

lemma editor_setDecorations_shown:
  "editor c \<noteq> None \<Longrightarrow> shown (editor_setDecorations dt l c) = (shown c)(handle dt := l)"
  by (rule ext) (auto simp: shown_def editor_setDecorations_def setDecorations_def)

lemma editor_setDecorations_editor:
  "editor c = Some ed \<Longrightarrow>
   editor (editor_setDecorations dt l c) = Some (ed\<lparr>decorations := (decorations ed)(handle dt := l)\<rparr>)"
  by (simp add: editor_setDecorations_def setDecorations_def)

lemma render_key_frame [simp]:
  "decorationTypeMap (render_key opts k c) = decorationTypeMap c"
  "createdDecorationTypes (render_key opts k c) = createdDecorationTypes c"
  "scopedDocument (render_key opts k c) = scopedDocument c"
  "cursorStyleSetting (render_key opts k c) = cursorStyleSetting c"
  by (simp_all add: render_key_def split: option.splits)

lemma render_key_editor:
  "editor c = Some ed \<Longrightarrow> \<exists>f. editor (render_key opts k c) = Some (ed\<lparr>decorations := f\<rparr>)"
  by (auto simp: render_key_def editor_setDecorations_editor split: option.splits
      intro: exI[of _ "decorations ed"])

lemma render_key_shown:
  "editor c \<noteq> None \<Longrightarrow>
   shown (render_key opts k c) =
     (case map_of (decorationTypeMap c) k of
        None \<Rightarrow> shown c
      | Some dt \<Rightarrow> (shown c)(handle dt := get_or_empty opts k))"
  by (simp add: render_key_def editor_setDecorations_shown split: option.splits)

lemma render_keys_frame [simp]:
  "decorationTypeMap (render_keys opts ks c) = decorationTypeMap c"
  "createdDecorationTypes (render_keys opts ks c) = createdDecorationTypes c"
  "scopedDocument (render_keys opts ks c) = scopedDocument c"
  "cursorStyleSetting (render_keys opts ks c) = cursorStyleSetting c"
  by (induction ks arbitrary: c; simp)+

lemma render_keys_editor:
  "editor c = Some ed \<Longrightarrow> \<exists>f. editor (render_keys opts ks c) = Some (ed\<lparr>decorations := f\<rparr>)"
proof (induction ks arbitrary: c ed)
  case Nil then show ?case by (auto intro: exI[of _ "decorations ed"])
next
  case (Cons k ks)
  from render_key_editor[OF Cons.prems, of opts k]
  obtain f where f: "editor (render_key opts k c) = Some (ed\<lparr>decorations := f\<rparr>)" by blast
  from Cons.IH[OF f] show ?case by auto
qed

lemma render_keys_other:
  "editor c \<noteq> None \<Longrightarrow>
   \<forall>k \<in> set ks. \<forall>dt. map_of (decorationTypeMap c) k = Some dt \<longrightarrow> handle dt \<noteq> h \<Longrightarrow>
   shown (render_keys opts ks c) h = shown c h"
proof (induction ks arbitrary: c)
  case Nil then show ?case by simp
next
  case (Cons k ks)
  have e: "editor (render_key opts k c) \<noteq> None"
    using Cons.prems(1) render_key_editor[of c _ opts k] by auto
  have "shown (render_keys opts ks (render_key opts k c)) h = shown (render_key opts k c) h"
    by (rule Cons.IH[OF e]) (use Cons.prems(2) in auto)
  also have "\<dots> = shown c h"
    using Cons.prems by (auto simp: render_key_shown split: option.splits)
  finally show ?case by simp
qed

lemma wf_handle_inj:
  "wf_controller c \<Longrightarrow> map_of (decorationTypeMap c) k = Some dt \<Longrightarrow>
   map_of (decorationTypeMap c) k' = Some dt' \<Longrightarrow> handle dt = handle dt' \<Longrightarrow> k = k'"
proof -
  assume wf: "wf_controller c" and a: "map_of (decorationTypeMap c) k = Some dt"
    and b: "map_of (decorationTypeMap c) k' = Some dt'" and h: "handle dt = handle dt'"
  from a b have ia: "(k, dt) \<in> set (decorationTypeMap c)" and ib: "(k', dt') \<in> set (decorationTypeMap c)"
    by (auto dest: map_of_SomeD)
  from wf have "inj_on (\<lambda>p. handle (snd p)) (set (decorationTypeMap c))"
    by (simp add: wf_controller_def distinct_map)
  from inj_onD[OF this _ ia ib] h show "k = k'" by simp
qed

lemma render_keys_shown:
  "editor c \<noteq> None \<Longrightarrow> wf_controller c \<Longrightarrow> k \<in> set ks \<Longrightarrow>
   map_of (decorationTypeMap c) k = Some dt \<Longrightarrow>
   shown (render_keys opts ks c) (handle dt) = get_or_empty opts k"
proof (induction ks arbitrary: c)
  case Nil then show ?case by simp
next
  case (Cons k' ks)
  have e: "editor (render_key opts k' c) \<noteq> None"
    using Cons.prems(1) render_key_editor[of c _ opts k'] by auto
  have wf': "wf_controller (render_key opts k' c)"
    using Cons.prems(2) by (simp add: wf_controller_def)
  show ?case
  proof (cases "k \<in> set ks")
    case True
    show ?thesis
      unfolding render_keys.simps
      by (rule Cons.IH[OF e wf' True]) (simp add: Cons.prems)
  next
    case False
    with Cons.prems(3) have kk: "k' = k" by simp
    have "shown (render_keys opts ks (render_key opts k c)) (handle dt) = shown (render_key opts k c) (handle dt)"
    proof (rule render_keys_other)
      show "editor (render_key opts k c) \<noteq> None" using e kk by simp
      show "\<forall>k''\<in>set ks. \<forall>dt'. map_of (decorationTypeMap (render_key opts k c)) k'' = Some dt' \<longrightarrow> handle dt' \<noteq> handle dt"
        using False wf_handle_inj[OF Cons.prems(2) Cons.prems(4)] by auto
    qed
    also have "\<dots> = get_or_empty opts k"
      using Cons.prems by (simp add: render_key_shown)
    finally show ?thesis using kk by simp
  qed
qed

subsection \<open>Eviction\<close>

lemma evict_key_frame [simp]:
  "createdDecorationTypes (evict_key src mrk k c) = createdDecorationTypes c"
  "scopedDocument (evict_key src mrk k c) = scopedDocument c"
  "cursorStyleSetting (evict_key src mrk k c) = cursorStyleSetting c"
  by (simp_all add: evict_key_def Let_def split: option.splits)

lemma evict_key_cache:
  "decorationTypeMap (evict_key src mrk k c) =
     (if k \<noteq> src \<and> k \<notin> set mrk then AList.delete k (decorationTypeMap c) else decorationTypeMap c)"
  by (simp add: evict_key_def Let_def split: option.splits)

lemma evict_key_editor:
  "editor c = Some ed \<Longrightarrow> \<exists>f. editor (evict_key src mrk k c) = Some (ed\<lparr>decorations := f\<rparr>)"
  by (auto simp: evict_key_def Let_def editor_setDecorations_editor split: option.splits
      intro: exI[of _ "decorations ed"])

lemma evict_key_shown:
  "editor c \<noteq> None \<Longrightarrow>
   shown (evict_key src mrk k c) =
     (if k \<noteq> src \<and> k \<notin> set mrk then
        (case map_of (decorationTypeMap c) k of
           None \<Rightarrow> shown c
         | Some dt \<Rightarrow> (shown c)(handle dt := []))
      else shown c)"
  by (rule ext) (auto simp: evict_key_def Let_def shown_def editor_setDecorations_def setDecorations_def
      split: option.splits)

lemma evict_keys_frame [simp]:
  "createdDecorationTypes (evict_keys src mrk ks c) = createdDecorationTypes c"
  "scopedDocument (evict_keys src mrk ks c) = scopedDocument c"
  "cursorStyleSetting (evict_keys src mrk ks c) = cursorStyleSetting c"
  by (induction ks arbitrary: c; simp)+

lemma evict_keys_editor:
  "editor c = Some ed \<Longrightarrow> \<exists>f. editor (evict_keys src mrk ks c) = Some (ed\<lparr>decorations := f\<rparr>)"
proof (induction ks arbitrary: c ed)
  case Nil then show ?case by (auto intro: exI[of _ "decorations ed"])
next
  case (Cons k ks)
  from evict_key_editor[OF Cons.prems, of src mrk k]
  obtain f where f: "editor (evict_key src mrk k c) = Some (ed\<lparr>decorations := f\<rparr>)" by blast
  from Cons.IH[OF f] show ?case by auto
qed

lemma evict_keys_cache:
  "decorationTypeMap (evict_keys src mrk ks c) =
     filter (\<lambda>p. \<not> (fst p \<in> set ks \<and> fst p \<noteq> src \<and> fst p \<notin> set mrk)) (decorationTypeMap c)"
proof (induction ks arbitrary: c)
  case Nil show ?case by simp
next
  case (Cons k ks)
  show ?case
    by (auto simp: Cons.IH evict_key_cache AList.delete_eq intro!: filter_cong)
qed

lemma evict_keys_empty_stays:
  "editor c \<noteq> None \<Longrightarrow> shown c h = [] \<Longrightarrow> shown (evict_keys src mrk ks c) h = []"
proof (induction ks arbitrary: c)
  case Nil then show ?case by simp
next
  case (Cons k ks)
  have e: "editor (evict_key src mrk k c) \<noteq> None"
    using Cons.prems(1) evict_key_editor[of c _ src mrk k] by auto
  show ?case
    unfolding evict_keys.simps
    by (rule Cons.IH[OF e]) (use Cons.prems in \<open>auto simp: evict_key_shown split: option.splits\<close>)
qed

lemma evict_keys_cleared:
  "editor c \<noteq> None \<Longrightarrow> k \<in> set ks \<Longrightarrow> k \<noteq> src \<Longrightarrow> k \<notin> set mrk \<Longrightarrow>
   map_of (decorationTypeMap c) k = Some dt \<Longrightarrow>
   shown (evict_keys src mrk ks c) (handle dt) = []"
proof (induction ks arbitrary: c)
  case Nil then show ?case by simp
next
  case (Cons k' ks)
  have e: "editor (evict_key src mrk k' c) \<noteq> None"
    using Cons.prems(1) evict_key_editor[of c _ src mrk k'] by auto
  show ?case
  proof (cases "k' = k")
    case True
    have "shown (evict_key src mrk k c) (handle dt) = []"
      using Cons.prems by (simp add: evict_key_shown)
    from evict_keys_empty_stays[OF _ this] e True show ?thesis by simp
  next
    case False
    with Cons.prems(2) have "k \<in> set ks" by simp
    moreover have "map_of (decorationTypeMap (evict_key src mrk k' c)) k = Some dt"
      using False Cons.prems(5) by (simp add: evict_key_cache)
    ultimately show ?thesis
      using Cons.IH[OF e _ Cons.prems(3,4)] by simp
  qed
qed

lemma evict_keys_other:
  "editor c \<noteq> None \<Longrightarrow>
   \<forall>k \<in> set ks. k \<noteq> src \<and> k \<notin> set mrk \<longrightarrow>
     (\<forall>dt. map_of (decorationTypeMap c) k = Some dt \<longrightarrow> handle dt \<noteq> h) \<Longrightarrow>
   shown (evict_keys src mrk ks c) h = shown c h"
proof (induction ks arbitrary: c)
  case Nil then show ?case by simp
next
  case (Cons k ks)
  have e: "editor (evict_key src mrk k c) \<noteq> None"
    using Cons.prems(1) evict_key_editor[of c _ src mrk k] by auto
  have "shown (evict_keys src mrk ks (evict_key src mrk k c)) h = shown (evict_key src mrk k c) h"
  proof (rule Cons.IH[OF e], intro ballI impI allI)
    fix k' dt assume k': "k' \<in> set ks" "k' \<noteq> src \<and> k' \<notin> set mrk"
      and m: "map_of (decorationTypeMap (evict_key src mrk k c)) k' = Some dt"
    from m have "map_of (decorationTypeMap c) k' = Some dt"
      by (auto simp: evict_key_cache delete_conv' split: if_splits)
    with Cons.prems(2) k' show "handle dt \<noteq> h" by auto
  qed
  also have "\<dots> = shown c h"
    using Cons.prems by (auto simp: evict_key_shown split: option.splits)
  finally show ?case by simp
qed

subsection \<open>The state at the end of the scan\<close>

lemma map_of_filter_fst:
  "map_of (filter (\<lambda>p. P (fst p)) al) k = (if P k then map_of al k else None)"
  by (induction al) auto

lemma scan_start_controller: "controller (scan_start p msk c) = initialize (source p) msk c"
  by (simp add: scan_start_def initialize_def)

lemma scan_start_fields [simp]:
  "decorationOptions (scan_start p msk c) = Map.empty"
  "matchReplaceKeys (scan_start p msk c) = []"
  by (simp_all add: scan_start_def)

lemma filter_conj: "filter (\<lambda>m. P m \<and> Q m) xs = filter Q (filter P xs)"
  by (induction xs) auto

lemma get_or_empty_empty [simp]: "get_or_empty Map.empty k = []"
  by (simp add: get_or_empty_def)

lemma scan_result:
  assumes "sound_matcher p" "editor c = Some ed"
  defines "tx \<equiv> getText (document ed)"
  shows "\<exists>p' st. scan ed (cursorStyle_of c) msk tx p (scan_start p msk c) = Some (p', st) \<and>
           st = fold (match_step ed (source p) (cursorStyle_of c) msk tx) (matches p tx) (scan_start p msk c) \<and>
           set (matchReplaceKeys st) = derived_keys c ed msk p \<and>
           (\<forall>k. get_or_empty (decorationOptions st) k = collected c ed msk p k) \<and>
           fst ` set (decorationTypeMap (controller st)) =
              insert (source p) (fst ` set (decorationTypeMap c)) \<union> derived_keys c ed msk p \<and>
           (\<forall>k dt. map_of (decorationTypeMap c) k = Some dt \<longrightarrow>
                map_of (decorationTypeMap (controller st)) k = Some dt) \<and>
           (wf_controller c \<longrightarrow> wf_controller (controller st)) \<and>
           editor (controller st) = Some ed \<and>
           scopedDocument (controller st) = scopedDocument c \<and>
           cursorStyleSetting (controller st) = cursorStyleSetting c \<and>
           shown (controller st) = shown c"
proof -
  let ?init = "scan_start p msk c"
  let ?step = "match_step ed (source p) (cursorStyle_of c) msk tx"
  let ?fin = "fold ?step (matches p tx) ?init"
  from scan_matches[OF assms(1), of ed "cursorStyle_of c" msk tx ?init]
  obtain p' where sc: "scan ed (cursorStyle_of c) msk tx p ?init = Some (p', ?fin)" by blast
  have sd0: "scopedDocument (controller ?init) = scopedDocument c"
    by (simp add: scan_start_controller)
  have mrk: "set (matchReplaceKeys ?fin) = derived_keys c ed msk p"
    by (auto simp: fold_mrk_set sd0 derived_keys_def decorated_def tx_def)
  have opts: "\<forall>k. get_or_empty (decorationOptions ?fin) k = collected c ed msk p k"
    unfolding fold_opts sd0 collected_def decorated_def tx_def filter_conj[symmetric]
    by (simp add: conj_commute)
  have keys: "fst ` set (decorationTypeMap (controller ?fin)) =
      insert (source p) (fst ` set (decorationTypeMap c)) \<union> derived_keys c ed msk p"
    using fold_keys[of ?init ed "source p" "cursorStyle_of c" msk tx "matches p tx"] mrk
    by (simp add: scan_start_controller initialize_keys)
  have mo: "\<forall>k dt. map_of (decorationTypeMap c) k = Some dt \<longrightarrow>
                map_of (decorationTypeMap (controller ?fin)) k = Some dt"
    by (intro allI impI fold_map_of) (simp add: scan_start_controller initialize_map_of)
  have wf: "wf_controller c \<longrightarrow> wf_controller (controller ?fin)"
    by (intro impI fold_wf) (simp add: scan_start_controller initialize_wf)
  have rest: "editor (controller ?fin) = Some ed"
    "scopedDocument (controller ?fin) = scopedDocument c"
    "cursorStyleSetting (controller ?fin) = cursorStyleSetting c"
    "shown (controller ?fin) = shown c"
    by (simp_all add: scan_start_controller assms(2))
  show ?thesis
    by (intro exI[of _ p'] exI[of _ ?fin] conjI sc refl mrk opts keys mo wf rest)
qed

subsection \<open>The commit\<close>

lemma commit_frame [simp]:
  "createdDecorationTypes (commit src st) = createdDecorationTypes (controller st)"
  "scopedDocument (commit src st) = scopedDocument (controller st)"
  "cursorStyleSetting (commit src st) = cursorStyleSetting (controller st)"
  by (simp_all add: commit_def Let_def)

lemma commit_cache:
  "decorationTypeMap (commit src st) =
     filter (\<lambda>p. fst p = src \<or> fst p \<in> set (matchReplaceKeys st)) (decorationTypeMap (controller st))"
  by (auto simp: commit_def Let_def evict_keys_cache intro!: filter_cong)

lemma commit_editor:
  assumes "editor (controller st) = Some ed"
  shows "\<exists>f. editor (commit src st) = Some (ed\<lparr>decorations := f\<rparr>)"
proof -
  from render_keys_editor[OF assms, of "decorationOptions st" "matchReplaceKeys st"]
  obtain f1 where 1: "editor (render_keys (decorationOptions st) (matchReplaceKeys st) (controller st)) = Some (ed\<lparr>decorations := f1\<rparr>)"
    by blast
  from render_key_editor[OF 1, of "decorationOptions st" src]
  obtain f2 where 2: "editor (render_key (decorationOptions st) src
      (render_keys (decorationOptions st) (matchReplaceKeys st) (controller st))) = Some (ed\<lparr>decorations := f2\<rparr>)"
    by auto
  from evict_keys_editor[OF 2] show ?thesis
    by (auto simp: commit_def Let_def)
qed

lemma commit_wf: "wf_controller (controller st) \<Longrightarrow> wf_controller (commit src st)"
  by (auto simp: wf_controller_def commit_cache distinct_map_filter list_all_iff)

lemma commit_keys:
  "insert src (set (matchReplaceKeys st)) \<subseteq> fst ` set (decorationTypeMap (controller st)) \<Longrightarrow>
   fst ` set (decorationTypeMap (commit src st)) = insert src (set (matchReplaceKeys st))"
  by (auto simp: commit_cache)

lemma commit_map_of:
  "map_of (decorationTypeMap (commit src st)) k =
     (if k = src \<or> k \<in> set (matchReplaceKeys st) then map_of (decorationTypeMap (controller st)) k else None)"
  unfolding commit_cache by (rule map_of_filter_fst)

lemma commit_shown_kept:
  assumes ed: "editor (controller st) \<noteq> None" and wf: "wf_controller (controller st)"
    and k: "k = src \<or> k \<in> set (matchReplaceKeys st)"
    and dt: "map_of (decorationTypeMap (controller st)) k = Some dt"
  shows "shown (commit src st) (handle dt) = get_or_empty (decorationOptions st) k"
proof -
  let ?c0 = "controller st"
  let ?c1 = "render_keys (decorationOptions st) (matchReplaceKeys st) ?c0"
  let ?c2 = "render_key (decorationOptions st) src ?c1"
  from ed obtain e0 where e0: "editor ?c0 = Some e0" by auto
  from render_keys_editor[OF e0] have e1: "editor ?c1 \<noteq> None" by fastforce
  then obtain e1' where e1': "editor ?c1 = Some e1'" by auto
  from render_key_editor[OF e1'] have e2: "editor ?c2 \<noteq> None" by fastforce
  have "shown (commit src st) (handle dt) = shown ?c2 (handle dt)"
    unfolding commit_def Let_def
  proof (rule evict_keys_other[OF e2], intro ballI impI allI)
    fix k' dt' assume "k' \<in> set (map fst (decorationTypeMap ?c2))"
      and k': "k' \<noteq> src \<and> k' \<notin> set (matchReplaceKeys st)"
      and m: "map_of (decorationTypeMap ?c2) k' = Some dt'"
    from k k' have "k \<noteq> k'" by auto
    with wf_handle_inj[OF wf dt, of k' dt'] m show "handle dt' \<noteq> handle dt" by auto
  qed
  also have "\<dots> = get_or_empty (decorationOptions st) k"
  proof (cases "k = src")
    case True
    with dt e1 show ?thesis by (simp add: render_key_shown)
  next
    case False
    with k have km: "k \<in> set (matchReplaceKeys st)" by simp
    have "shown ?c2 (handle dt) = shown ?c1 (handle dt)"
      using e1 False wf_handle_inj[OF wf dt, of src]
      by (auto simp: render_key_shown split: option.splits)
    also have "\<dots> = get_or_empty (decorationOptions st) k"
      by (rule render_keys_shown[OF ed wf km dt])
    finally show ?thesis .
  qed
  finally show ?thesis .
qed

lemma commit_shown_evicted:
  assumes ed: "editor (controller st) \<noteq> None"
    and k: "k \<noteq> src" "k \<notin> set (matchReplaceKeys st)"
    and dt: "map_of (decorationTypeMap (controller st)) k = Some dt"
  shows "shown (commit src st) (handle dt) = []"
proof -
  let ?c0 = "controller st"
  let ?c1 = "render_keys (decorationOptions st) (matchReplaceKeys st) ?c0"
  let ?c2 = "render_key (decorationOptions st) src ?c1"
  from ed obtain e0 where e0: "editor ?c0 = Some e0" by auto
  from render_keys_editor[OF e0] obtain e1' where e1': "editor ?c1 = Some e1'" by fastforce
  from render_key_editor[OF e1'] have e2: "editor ?c2 \<noteq> None" by fastforce
  have in_keys: "k \<in> set (map fst (decorationTypeMap ?c2))"
    using dt by (auto dest!: map_of_SomeD intro: rev_image_eqI)
  show ?thesis
    unfolding commit_def Let_def
    by (rule evict_keys_cleared[OF e2 in_keys k]) (simp add: dt)
qed

subsection \<open>The result of apply\<close>

lemma apply_result:
  assumes snd: "sound_matcher p" and ed: "editor c = Some ed"
  shows "\<exists>p' c'. apply_mask p msk c = Some (p', c') \<and>
           (\<exists>f. editor c' = Some (ed\<lparr>decorations := f\<rparr>)) \<and>
           scopedDocument c' = scopedDocument c \<and>
           cursorStyleSetting c' = cursorStyleSetting c \<and>
           fst ` set (decorationTypeMap c') = insert (source p) (derived_keys c ed msk p) \<and>
           (\<forall>k dt. map_of (decorationTypeMap c) k = Some dt \<longrightarrow> k \<noteq> source p \<longrightarrow>
                k \<notin> derived_keys c ed msk p \<longrightarrow>
                shown c' (handle dt) = [] \<and> map_of (decorationTypeMap c') k = None) \<and>
           (wf_controller c \<longrightarrow>
              wf_controller c' \<and>
              (\<forall>k. rendered c' k =
                   (if k = source p \<or> k \<in> derived_keys c ed msk p
                    then Some (collected c ed msk p k) else None)))"
proof -
  from scan_result[OF snd ed, of msk]
  obtain p' st where
    sc: "scan ed (cursorStyle_of c) msk (getText (document ed)) p (scan_start p msk c) = Some (p', st)"
    and mrk: "set (matchReplaceKeys st) = derived_keys c ed msk p"
    and opts: "\<forall>k. get_or_empty (decorationOptions st) k = collected c ed msk p k"
    and keys: "fst ` set (decorationTypeMap (controller st)) =
              insert (source p) (fst ` set (decorationTypeMap c)) \<union> derived_keys c ed msk p"
    and mo: "\<forall>k dt. map_of (decorationTypeMap c) k = Some dt \<longrightarrow>
                map_of (decorationTypeMap (controller st)) k = Some dt"
    and wf: "wf_controller c \<longrightarrow> wf_controller (controller st)"
    and e: "editor (controller st) = Some ed"
    and fr: "scopedDocument (controller st) = scopedDocument c"
            "cursorStyleSetting (controller st) = cursorStyleSetting c"
    by blast
  let ?c' = "commit (source p) st"
  have ap: "apply_mask p msk c = Some (p', ?c')"
    by (simp add: apply_mask_def ed sc)
  have e': "\<exists>f. editor ?c' = Some (ed\<lparr>decorations := f\<rparr>)"
    by (rule commit_editor[OF e])
  have ne: "editor (controller st) \<noteq> None" using e by simp
  have sub: "insert (source p) (set (matchReplaceKeys st)) \<subseteq> fst ` set (decorationTypeMap (controller st))"
    using keys mrk by auto
  have k': "fst ` set (decorationTypeMap ?c') = insert (source p) (derived_keys c ed msk p)"
    using commit_keys[OF sub] mrk by simp
  have ev: "\<forall>k dt. map_of (decorationTypeMap c) k = Some dt \<longrightarrow> k \<noteq> source p \<longrightarrow>
                k \<notin> derived_keys c ed msk p \<longrightarrow>
                shown ?c' (handle dt) = [] \<and> map_of (decorationTypeMap ?c') k = None"
  proof (intro allI impI)
    fix k dt assume a: "map_of (decorationTypeMap c) k = Some dt" "k \<noteq> source p"
      "k \<notin> derived_keys c ed msk p"
    from mo a(1) have m: "map_of (decorationTypeMap (controller st)) k = Some dt" by blast
    have "shown ?c' (handle dt) = []"
      by (rule commit_shown_evicted[OF ne a(2) _ m]) (simp add: mrk a(3))
    moreover have "map_of (decorationTypeMap ?c') k = None"
      using a by (simp add: commit_map_of mrk)
    ultimately show "shown ?c' (handle dt) = [] \<and> map_of (decorationTypeMap ?c') k = None" ..
  qed
  have rd: "wf_controller c \<longrightarrow>
              wf_controller ?c' \<and>
              (\<forall>k. rendered ?c' k =
                   (if k = source p \<or> k \<in> derived_keys c ed msk p
                    then Some (collected c ed msk p k) else None))"
  proof (intro impI conjI allI)
    assume w: "wf_controller c"
    with wf have w1: "wf_controller (controller st)" by simp
    show "wf_controller ?c'" by (rule commit_wf[OF w1])
    fix k
    show "rendered ?c' k =
       (if k = source p \<or> k \<in> derived_keys c ed msk p then Some (collected c ed msk p k) else None)"
    proof (cases "k = source p \<or> k \<in> derived_keys c ed msk p")
      case False
      then show ?thesis by (simp add: rendered_def commit_map_of mrk)
    next
      case True
      then have kk: "k = source p \<or> k \<in> set (matchReplaceKeys st)" by (simp add: mrk)
      with sub have "k \<in> fst ` set (decorationTypeMap (controller st))" by auto
      then obtain dt where dt: "map_of (decorationTypeMap (controller st)) k = Some dt"
        by (cases "map_of (decorationTypeMap (controller st)) k") (auto simp: map_of_eq_None_iff)
      have "shown ?c' (handle dt) = get_or_empty (decorationOptions st) k"
        by (rule commit_shown_kept[OF ne w1 kk dt])
      with True kk dt opts show ?thesis
        by (simp add: rendered_def commit_map_of)
    qed
  qed
  show ?thesis
    by (intro exI[of _ p'] exI[of _ ?c'] conjI ap e' k' ev rd) (simp_all add: fr)
qed

subsection \<open>Scope filters\<close>

lemma decorated_needs_tokens:
  assumes "scope_filter msk (find_matchReplace msk (take len (drop index tx))) = Some S"
    and "decorateSymbol sd ed cs msk tx (index, len)"
  shows "\<exists>toks. scopedDocument_getTokens sd (line (positionAt (document ed) index)) = Some toks \<and>
           token_within toks (character (positionAt (document ed) index)) S"
  using assms by (auto simp: decorateSymbol_eq decorate_rule_def Let_def split: option.splits)

text \<open>
  Claim C2. Let \<open>S\<close> be the scope filter a match is evaluated under (the one of its entry
  in the replacement map, else the uniform one of the mask). If the match is decorated,
  then the tokens of its line are available and a token that contains the column of its
  start has a scope string that equals \<open>S\<close> or starts with \<open>S\<close> followed by a dot. When
  there is no token data (no scoped document, or no grammar loaded), the match is not
  decorated.
\<close>

theorem scope_filter_decides:
  assumes "scope_filter msk (find_matchReplace msk (take len (drop index tx))) = Some S"
  shows "(decorateSymbol sd ed cs msk tx (index, len) \<longrightarrow>
            (\<exists>toks. scopedDocument_getTokens sd (line (positionAt (document ed) index)) = Some toks \<and>
               (\<exists>t \<in> set toks.
                  startIndex t \<le> character (positionAt (document ed) index) \<and>
                  character (positionAt (document ed) index) < endIndex t \<and>
                  (\<exists>s \<in> set (scopes t). s = S \<or> prefix (S @ ''.'') s)))) \<and>
         ((case sd of None \<Rightarrow> True | Some d \<Rightarrow> sd_grammar d = None) \<longrightarrow>
            \<not> decorateSymbol sd ed cs msk tx (index, len))"
proof (intro conjI impI)
  assume d: "decorateSymbol sd ed cs msk tx (index, len)"
  from decorated_needs_tokens[OF assms d]
  show "\<exists>toks. scopedDocument_getTokens sd (line (positionAt (document ed) index)) = Some toks \<and>
               (\<exists>t \<in> set toks.
                  startIndex t \<le> character (positionAt (document ed) index) \<and>
                  character (positionAt (document ed) index) < endIndex t \<and>
                  (\<exists>s \<in> set (scopes t). s = S \<or> prefix (S @ ''.'') s))"
    by (simp add: token_within_def within_scope_def)
next
  assume n: "case sd of None \<Rightarrow> True | Some d \<Rightarrow> sd_grammar d = None"
  then have "scopedDocument_getTokens sd (line (positionAt (document ed) index)) = None"
    by (auto simp: scopedDocument_getTokens_def getTokens_def split: option.splits)
  with decorated_needs_tokens[OF assms, of sd ed cs]
  show "\<not> decorateSymbol sd ed cs msk tx (index, len)" by auto
qed

lemma sample_tokens:
  "scopedDocument_getTokens (Some (sample_scoped tx)) n =
     Some [\<lparr>startIndex = 0, endIndex = 1, scopes = [''source.ts'', ''keyword.operator.comparison'']\<rparr>,
           \<lparr>startIndex = 1, endIndex = 5, scopes = [''source.ts'', ''keyword.operatorx'']\<rparr>]"
  by (simp add: scopedDocument_getTokens_def getTokens_def sample_scoped_def sample_grammar_def)

lemma sample_editor_simps [simp]:
  "selections (sample_editor tx sels) = sels"
  "positionAt (document (sample_editor tx sels)) n = \<lparr>line = 0, character = n\<rparr>"
  "offsetAt (document (sample_editor tx sels)) q = character q"
  "getText (document (sample_editor tx sels)) = tx"
  by (simp_all add: sample_editor_def sample_document_def)

lemma sample_mask_simps [simp]:
  "m_text (sample_mask t s) = t" "m_scope (sample_mask t s) = s" "m_hover (sample_mask t s) = None"
  by (simp_all add: sample_mask_def)

lemma sample_entry_simps [simp]:
  "r_text (sample_entry t s) = t" "r_scope (sample_entry t s) = s" "r_hover (sample_entry t s) = None"
  by (simp_all add: sample_entry_def)

lemma caret_simps [simp]:
  "character (sel_start (caret n)) = n" "character (sel_end (caret n)) = n"
  by (simp_all add: caret_def)

lemma sample_decide_scoped:
  "decorateSymbol (Some (sample_scoped tx)) (sample_editor tx [caret 4]) ''line''
     (sample_mask (Some (TextString ''x'')) (Some ''keyword.operator'')) tx (0, 1)"
  "\<not> decorateSymbol (Some (sample_scoped tx)) (sample_editor tx [caret 4]) ''line''
     (sample_mask (Some (TextString ''x'')) (Some ''keyword.operator'')) tx (2, 1)"
  by (simp_all add: decorateSymbol_eq decorate_rule_def reveals_def scope_filter_def
      find_matchReplace_def matchReplace_scope_def truthy_def sample_tokens token_within_def
      within_scope_def)

theorem scope_filter_decides_witness:
  "scope_filter (sample_mask (Some (TextString ''x'')) (Some ''keyword.operator''))
     (find_matchReplace (sample_mask (Some (TextString ''x'')) (Some ''keyword.operator''))
        (take 1 (drop 0 ''a b a''))) = Some ''keyword.operator'' \<and>
   decorateSymbol (Some (sample_scoped ''a b a'')) (sample_editor ''a b a'' [caret 4]) ''line''
     (sample_mask (Some (TextString ''x'')) (Some ''keyword.operator'')) ''a b a'' (0, 1) \<and>
   \<not> decorateSymbol (Some (sample_scoped ''a b a'')) (sample_editor ''a b a'' [caret 4]) ''line''
     (sample_mask (Some (TextString ''x'')) (Some ''keyword.operator'')) ''a b a'' (2, 1) \<and>
   \<not> decorateSymbol (None :: nat scoped_document option) (sample_editor ''a b a'' [caret 4]) ''line''
     (sample_mask (Some (TextString ''x'')) (Some ''keyword.operator'')) ''a b a'' (0, 1)"
proof -
  have f: "scope_filter (sample_mask (Some (TextString ''x'')) (Some ''keyword.operator''))
     (find_matchReplace (sample_mask (Some (TextString ''x'')) (Some ''keyword.operator''))
        (take 1 (drop 0 ''a b a''))) = Some ''keyword.operator''"
    by (simp add: scope_filter_def find_matchReplace_def matchReplace_scope_def truthy_def)
  from scope_filter_decides[OF f, of "None :: nat scoped_document option" "sample_editor ''a b a'' [caret 4]" "''line''"]
  have "\<not> decorateSymbol (None :: nat scoped_document option) (sample_editor ''a b a'' [caret 4]) ''line''
     (sample_mask (Some (TextString ''x'')) (Some ''keyword.operator'')) ''a b a'' (0, 1)"
    by simp
  with f sample_decide_scoped[of "''a b a''"] show ?thesis by simp
qed

text \<open>
  Claim C10. When the mask carries a uniform scope filter \<open>S\<close> and a replacement map, and
  the entry of the map for the matched text specifies no scope of its own, a decorated
  match has token data and a token at the column of its start with a scope string within
  \<open>S\<close>: the entry does not bypass the uniform filter.
\<close>

theorem uniform_scope_applies_to_entries:
  assumes "m_scope msk = Some S" and "S \<noteq> []"
    and "m_text msk = Some (TextMap replacements)"
    and "replacements (take len (drop index tx)) = Some r"
    and "\<not> truthy (r_scope r)"
    and "decorateSymbol sd ed cs msk tx (index, len)"
  shows "\<exists>toks. scopedDocument_getTokens sd (line (positionAt (document ed) index)) = Some toks \<and>
           (\<exists>t \<in> set toks.
              startIndex t \<le> character (positionAt (document ed) index) \<and>
              character (positionAt (document ed) index) < endIndex t \<and>
              (\<exists>s \<in> set (scopes t). s = S \<or> prefix (S @ ''.'') s))"
proof -
  have "scope_filter msk (find_matchReplace msk (take len (drop index tx))) = Some S"
    using assms(1-5) by (simp add: scope_filter_def find_matchReplace_def matchReplace_scope_def truthy_def)
  from decorated_needs_tokens[OF this assms(6)] show ?thesis
    by (simp add: token_within_def within_scope_def)
qed

lemma sample_map_simps [simp]:
  "sample_map ''a'' = Some (sample_entry ''x'' None)"
  "sample_map ''b'' = Some (sample_entry ''y'' None)"
  by (simp_all add: sample_map_def)

lemma sample_decide_keyed_scoped:
  "decorateSymbol (Some (sample_scoped ''a b a'')) (sample_editor ''a b a'' [caret 4]) ''line''
     (sample_mask (Some (TextMap sample_map)) (Some ''keyword.operator'')) ''a b a'' (0, 1)"
  "\<not> decorateSymbol (Some (sample_scoped ''a b a'')) (sample_editor ''a b a'' [caret 4]) ''line''
     (sample_mask (Some (TextMap sample_map)) (Some ''keyword.operator'')) ''a b a'' (2, 1)"
  by (simp_all add: decorateSymbol_eq decorate_rule_def reveals_def scope_filter_def
      find_matchReplace_def matchReplace_scope_def truthy_def sample_tokens token_within_def
      within_scope_def)

theorem uniform_scope_applies_to_entries_witness:
  "decorateSymbol (Some (sample_scoped ''a b a'')) (sample_editor ''a b a'' [caret 4]) ''line''
     (sample_mask (Some (TextMap sample_map)) (Some ''keyword.operator'')) ''a b a'' (0, 1) \<and>
   (\<exists>toks. scopedDocument_getTokens (Some (sample_scoped ''a b a''))
             (line (positionAt (document (sample_editor ''a b a'' [caret 4])) 0)) = Some toks \<and>
      (\<exists>t \<in> set toks.
         startIndex t \<le> character (positionAt (document (sample_editor ''a b a'' [caret 4])) 0) \<and>
         character (positionAt (document (sample_editor ''a b a'' [caret 4])) 0) < endIndex t \<and>
         (\<exists>s \<in> set (scopes t). s = ''keyword.operator'' \<or> prefix (''keyword.operator'' @ ''.'') s))) \<and>
   \<not> decorateSymbol (Some (sample_scoped ''a b a'')) (sample_editor ''a b a'' [caret 4]) ''line''
     (sample_mask (Some (TextMap sample_map)) (Some ''keyword.operator'')) ''a b a'' (2, 1)"
proof -
  have d: "decorateSymbol (Some (sample_scoped ''a b a'')) (sample_editor ''a b a'' [caret 4]) ''line''
     (sample_mask (Some (TextMap sample_map)) (Some ''keyword.operator'')) ''a b a'' (0, 1)"
    by (rule sample_decide_keyed_scoped)
  have h1: "m_scope (sample_mask (Some (TextMap sample_map)) (Some ''keyword.operator'')) = Some ''keyword.operator''"
    and h2: "''keyword.operator'' \<noteq> []"
    and h3: "m_text (sample_mask (Some (TextMap sample_map)) (Some ''keyword.operator'')) = Some (TextMap sample_map)"
    and h4: "sample_map (take 1 (drop 0 ''a b a'')) = Some (sample_entry ''x'' None)"
    and h5: "\<not> truthy (r_scope (sample_entry ''x'' None))"
    by (simp_all add: truthy_def)
  from uniform_scope_applies_to_entries[OF h1 h2 h3 h4 h5 d] d sample_decide_keyed_scoped(2)
  show ?thesis by simp
qed

subsection \<open>The collapsed rule\<close>

text \<open>
  Claim C8. For every match, document, mask and list of selections of an editor, the
  decision of the loop over the selections equals the collapsed rule: decorate iff no
  selection reveals the match and the scope filter, if there is one, matches the token at
  the start of the match. The list of selections is not empty: an editor of the host
  always holds its primary selection.
\<close>

theorem collapsed_rule:
  "selections ed \<noteq> [] \<Longrightarrow>
   decorateSymbol sd ed cs msk tx m = decorate_rule sd ed cs msk tx m"
  by (simp add: decorateSymbol_eq)

theorem collapsed_rule_witness:
  "selections (sample_editor ''a b a'' [caret 4, caret 1]) \<noteq> [] \<and>
   decorate_rule (None :: nat scoped_document option) (sample_editor ''a b a'' [caret 4, caret 1]) ''line''
     (sample_mask (Some (TextString ''x'')) None) ''a b a'' (2, 1) \<and>
   decorateSymbol (None :: nat scoped_document option) (sample_editor ''a b a'' [caret 4, caret 1]) ''line''
     (sample_mask (Some (TextString ''x'')) None) ''a b a'' (2, 1) \<and>
   \<not> decorateSymbol (None :: nat scoped_document option) (sample_editor ''a b a'' [caret 4, caret 1]) ''line''
     (sample_mask (Some (TextString ''x'')) None) ''a b a'' (0, 1)"
proof -
  have n: "selections (sample_editor ''a b a'' [caret 4, caret 1]) \<noteq> []" by simp
  have r: "decorate_rule (None :: nat scoped_document option) (sample_editor ''a b a'' [caret 4, caret 1]) ''line''
     (sample_mask (Some (TextString ''x'')) None) ''a b a'' (2, 1)"
    "\<not> decorate_rule (None :: nat scoped_document option) (sample_editor ''a b a'' [caret 4, caret 1]) ''line''
     (sample_mask (Some (TextString ''x'')) None) ''a b a'' (0, 1)"
    by (simp_all add: decorate_rule_def reveals_def scope_filter_def find_matchReplace_def
        matchReplace_scope_def truthy_def)
  show ?thesis
    using n r collapsed_rule[OF n, of "None :: nat scoped_document option" "''line''"
        "sample_mask (Some (TextString ''x'')) None" "''a b a''"]
    by simp
qed

subsection \<open>Tokenizing\<close>

lemma tokenize_lines_eq:
  "\<forall>j. gs j = (if 0 \<le> j \<and> j < int i then Some (line_state g doc (nat j)) else None) \<Longrightarrow>
   tokenize_lines g doc i gs =
     (\<lambda>j. if 0 \<le> j \<and> j < int (max i (lineCount doc)) then Some (line_state g doc (nat j)) else None)"
proof (induction g doc i gs rule: tokenize_lines.induct)
  case (1 g doc i gs)
  show ?case
  proof (cases "i < lineCount doc")
    case False
    then have "max i (lineCount doc) = i" by simp
    with False 1(2) show ?thesis by (subst tokenize_lines.simps) auto
  next
    case True
    let ?gs = "gs(int i \<mapsto> ruleStack (tokenizeLine g (lineAt_text doc i) (gs (int i - 1))))"
    have st: "ruleStack (tokenizeLine g (lineAt_text doc i) (gs (int i - 1))) = line_state g doc i"
    proof (cases i)
      case 0
      with 1(2) show ?thesis by simp
    next
      case (Suc k)
      with 1(2) have "gs (int i - 1) = Some (line_state g doc k)" by simp
      with Suc show ?thesis by simp
    qed
    have inv: "\<forall>j. ?gs j = (if 0 \<le> j \<and> j < int (Suc i) then Some (line_state g doc (nat j)) else None)"
      using 1(2) st by auto
    have "tokenize_lines g doc (Suc i) ?gs =
      (\<lambda>j. if 0 \<le> j \<and> j < int (max (Suc i) (lineCount doc)) then Some (line_state g doc (nat j)) else None)"
      by (rule 1(1)[OF True refl refl inv])
    moreover have "max (Suc i) (lineCount doc) = max i (lineCount doc)" using True by simp
    ultimately show ?thesis using True by (subst tokenize_lines.simps) (simp add: Let_def)
  qed
qed

text \<open>
  Claim C5. \<open>tokenize\<close> discards the stored states whatever they were. If a document and
  a grammar are both present, the map it leaves holds, for every line \<open>i\<close> below
  \<open>lineCount\<close> and for no other key, the state at the end of line \<open>i\<close> computed from the
  state at the end of line \<open>i - 1\<close> (none for line 0); otherwise the map it leaves is
  empty. The document and the grammar are left as they were.
\<close>

theorem tokenize_rebuilds:
  "grammarState (tokenize sd) =
     (case (sd_document sd, sd_grammar sd) of
        (Some doc, Some g) \<Rightarrow>
          (\<lambda>j. if 0 \<le> j \<and> j < int (lineCount doc) then Some (line_state g doc (nat j)) else None)
      | _ \<Rightarrow> Map.empty) \<and>
   sd_document (tokenize sd) = sd_document sd \<and> sd_grammar (tokenize sd) = sd_grammar sd"
proof -
  have "tokenize_lines g doc 0 Map.empty =
      (\<lambda>j. if 0 \<le> j \<and> j < int (lineCount doc) then Some (line_state g doc (nat j)) else None)"
    for g :: "'a grammar" and doc
    using tokenize_lines_eq[of Map.empty 0 g doc] by simp
  then show ?thesis
    by (simp add: tokenize_def Let_def split: option.splits)
qed

theorem tokenize_rebuilds_witness:
  "grammarState (tokenize
      \<lparr>sd_document = Some (lines_document [''ab'', ''c'', ''def'']), sd_grammar = Some sample_grammar,
       grammarState = [7 \<mapsto> 99]\<rparr>) =
     [0 \<mapsto> 2, 1 \<mapsto> 3, 2 \<mapsto> 6] \<and>
   grammarState (tokenize
      \<lparr>sd_document = Some (lines_document [''ab'', ''c'', ''def'']), sd_grammar = (None :: nat grammar option),
       grammarState = [7 \<mapsto> 99]\<rparr>) = Map.empty"
proof -
  let ?doc = "lines_document [''ab'', ''c'', ''def'']"
  have l: "line_state sample_grammar ?doc 0 = 2" "line_state sample_grammar ?doc 1 = 3"
    "line_state sample_grammar ?doc 2 = 6"
    by (simp_all add: sample_grammar_def lines_document_def numeral_2_eq_2)
  have lc: "lineCount ?doc = 3" by (simp add: lines_document_def)
  have a: "grammarState (tokenize \<lparr>sd_document = Some ?doc, sd_grammar = Some sample_grammar,
       grammarState = [7 \<mapsto> 99]\<rparr>) =
     (\<lambda>j. if 0 \<le> j \<and> j < 3 then Some (line_state sample_grammar ?doc (nat j)) else None)"
    using tokenize_rebuilds[of "\<lparr>sd_document = Some ?doc, sd_grammar = Some sample_grammar,
        grammarState = [7 \<mapsto> 99]\<rparr>"] lc
    by simp
  have b: "(\<lambda>j::int. if 0 \<le> j \<and> j < 3 then Some (line_state sample_grammar ?doc (nat j)) else None) =
     [0 \<mapsto> 2, 1 \<mapsto> 3, 2 \<mapsto> 6]"
  proof (rule ext)
    fix j :: int
    consider "j < 0" | "j = 0" | "j = 1" | "j = 2" | "3 \<le> j" by linarith
    then show "(if 0 \<le> j \<and> j < 3 then Some (line_state sample_grammar ?doc (nat j)) else None) =
       [0 \<mapsto> 2, 1 \<mapsto> 3, 2 \<mapsto> 6] j"
      using l by cases simp_all
  qed
  have c: "grammarState (tokenize \<lparr>sd_document = Some ?doc, sd_grammar = (None :: nat grammar option),
       grammarState = [7 \<mapsto> 99]\<rparr>) = Map.empty"
    using tokenize_rebuilds[of "\<lparr>sd_document = Some ?doc, sd_grammar = (None :: nat grammar option),
        grammarState = [7 \<mapsto> 99]\<rparr>"]
    by simp
  from a b c show ?thesis by simp
qed

subsection \<open>Termination of the scan\<close>

lemma scan_zero_length:
  "exec p tx = (Some (i, 0), p1) \<Longrightarrow> scan ed cs msk tx p st = Some (p1, st)"
  by (subst scan.simps) simp

lemma apply_returns:
  "sound_matcher p \<Longrightarrow> \<exists>r. apply_mask p msk c = Some r"
proof (cases "editor c")
  case None
  then show ?thesis by (simp add: apply_mask_def)
next
  case (Some ed)
  assume "sound_matcher p"
  from apply_result[OF this Some, of msk] show ?thesis by blast
qed

text \<open>
  Claim C6. For every text and every pattern (an expression of the host, whose engine
  reports matches at or after the offset it is asked to search from and within the
  text), the scanning loop ends, from whatever state it is entered in, and so \<open>apply\<close>
  returns. At a match of length 0 the loop ends at once: the state is the one in which
  the match was found, and no further match is processed.
\<close>

theorem scan_terminates:
  assumes "sound_matcher p"
  shows "(\<exists>r. scan ed cs msk tx p st = Some r) \<and>
         (\<exists>r. apply_mask p msk c = Some r) \<and>
         (\<forall>i p1. exec p tx = (Some (i, 0), p1) \<longrightarrow> scan ed cs msk tx p st = Some (p1, st))"
  using scan_matches[OF assms, of ed cs msk tx st] apply_returns[OF assms, of msk c]
  by (auto simp: scan_zero_length)

lemma run_regexp_sound: "sound_matcher (run_regexp src a)"
proof -
  have "k + length (takeWhile (\<lambda>c. c = a) (drop k tx)) \<le> length tx" if "k \<le> length tx" for k tx
    using length_takeWhile_le[of "\<lambda>c. c = a" "drop k tx"] that by simp
  then show ?thesis
    by (auto simp: sound_matcher_def run_regexp_def split: if_splits)
qed

lemma run_regexp_simps [simp]:
  "source (run_regexp src a) = src"
  "lastIndex (run_regexp src a) = 0"
  by (simp_all add: run_regexp_def)

theorem scan_terminates_witness:
  "(\<exists>r. apply_mask (run_regexp ''a*'' CHR ''a'') (sample_mask (Some (TextString ''x'')) None)
          (sample_controller (Some (sample_editor ''aab'' [caret 3])) None (Some ''line'')) = Some r) \<and>
   matches (run_regexp ''a*'' CHR ''a'') ''aab'' = [(0, 2)] \<and>
   exec ((run_regexp ''a*'' CHR ''a'')\<lparr>lastIndex := 2\<rparr>) ''aab'' =
     (Some (2, 0), (run_regexp ''a*'' CHR ''a'')\<lparr>lastIndex := 2\<rparr>)"
proof -
  have m: "matches (run_regexp ''a*'' CHR ''a'') ''aab'' = [(0, 2)]"
    by (simp add: matches_def exec_def run_regexp_def)
  have e: "exec ((run_regexp ''a*'' CHR ''a'')\<lparr>lastIndex := 2\<rparr>) ''aab'' =
     (Some (2, 0), (run_regexp ''a*'' CHR ''a'')\<lparr>lastIndex := 2\<rparr>)"
    by (simp add: exec_def run_regexp_def)
  from scan_terminates[OF run_regexp_sound[of "''a*''" "CHR ''a''"],
      where msk = "sample_mask (Some (TextString ''x'')) None"
        and c = "sample_controller (Some (sample_editor ''aab'' [caret 3])) None (Some ''line'')"]
  have "\<exists>r. apply_mask (run_regexp ''a*'' CHR ''a'') (sample_mask (Some (TextString ''x'')) None)
          (sample_controller (Some (sample_editor ''aab'' [caret 3])) None (Some ''line'')) = Some r"
    by blast
  with m e show ?thesis by simp
qed

subsection \<open>The matches of a scan\<close>

lemma matches_upto_props:
  "sound_matcher re \<Longrightarrow>
   (\<forall>m \<in> set (matches_upto n re tx). lastIndex re \<le> fst m \<and> 0 < snd m \<and> fst m + snd m \<le> length tx) \<and>
   sorted_wrt (\<lambda>a b. fst a < fst b) (matches_upto n re tx)"
proof (induction n arbitrary: re)
  case 0 show ?case by simp
next
  case (Suc n)
  obtain r re1 where ex: "exec re tx = (r, re1)" by (cases "exec re tx")
  show ?case
  proof (cases r)
    case None with ex show ?thesis by simp
  next
    case (Some m)
    obtain i k where m: "m = (i, k)" by (cases m)
    show ?thesis
    proof (cases "k = 0")
      case True with ex Some m show ?thesis by simp
    next
      case False
      have b: "lastIndex re \<le> i" "i + k \<le> length tx" "lastIndex re1 = i + k"
        using exec_Some[of re tx i k re1] ex Some m Suc.prems by auto
      have s1: "sound_matcher re1" using exec_sound[OF ex Suc.prems] .
      from Suc.IH[OF s1]
      have ih: "\<forall>m \<in> set (matches_upto n re1 tx). lastIndex re1 \<le> fst m \<and> 0 < snd m \<and> fst m + snd m \<le> length tx"
        "sorted_wrt (\<lambda>a b. fst a < fst b) (matches_upto n re1 tx)" by auto
      have eq: "matches_upto (Suc n) re tx = (i, k) # matches_upto n re1 tx"
        using ex Some m False by simp
      have t: "lastIndex re \<le> fst m' \<and> 0 < snd m' \<and> fst m' + snd m' \<le> length tx \<and> i < fst m'"
        if "m' \<in> set (matches_upto n re1 tx)" for m'
      proof -
        from ih(1) that have "lastIndex re1 \<le> fst m' \<and> 0 < snd m' \<and> fst m' + snd m' \<le> length tx"
          by blast
        with b False show ?thesis by simp
      qed
      show ?thesis unfolding eq using t ih(2) b False by simp
    qed
  qed
qed

lemma sorted_fst_distinct:
  fixes ms :: "(nat \<times> nat) list"
  shows "sorted_wrt (\<lambda>a b. fst a < fst b) ms \<Longrightarrow> distinct (map fst ms)"
proof (induction ms)
  case Nil show ?case by simp
next
  case (Cons a ms)
  then have "\<forall>x \<in> set ms. fst a < fst x" and "distinct (map fst ms)" by simp_all
  then have "fst a \<notin> fst ` set ms" by force
  with \<open>distinct (map fst ms)\<close> show ?case by simp
qed

lemma matches_props:
  assumes "sound_matcher re"
  shows "m \<in> set (matches re tx) \<Longrightarrow> 0 < snd m \<and> fst m + snd m \<le> length tx"
    and "inj_on fst (set (matches re tx))"
proof -
  from matches_upto_props[OF assms, of "Suc (length tx)" tx]
  have a: "\<forall>m \<in> set (matches re tx). lastIndex re \<le> fst m \<and> 0 < snd m \<and> fst m + snd m \<le> length tx"
    and s: "sorted_wrt (\<lambda>a b. fst a < fst b) (matches re tx)"
    unfolding matches_def by blast+
  from a show "m \<in> set (matches re tx) \<Longrightarrow> 0 < snd m \<and> fst m + snd m \<le> length tx" by blast
  from sorted_fst_distinct[OF s] show "inj_on fst (set (matches re tx))"
    by (simp add: distinct_map)
qed

subsection \<open>Facts about the sample data\<close>

lemma first_index_bounds: "first_index P xs k = Some i \<Longrightarrow> k \<le> i \<and> i < k + length xs"
proof (induction xs arbitrary: k)
  case Nil then show ?case by simp
next
  case (Cons x xs)
  show ?case
  proof (cases "P x")
    case True with Cons.prems show ?thesis by simp
  next
    case False
    with Cons.prems have "first_index P xs (Suc k) = Some i" by simp
    from Cons.IH[OF this] show ?thesis by simp
  qed
qed

lemma char_regexp_sound: "sound_matcher (char_regexp src cs)"
  unfolding sound_matcher_def
proof (intro allI impI)
  fix tx k index len
  assume "matcher (char_regexp src cs) tx k = Some (index, len)"
  then have f: "first_index (\<lambda>c. c \<in> set cs) (drop k tx) k = Some index" and l: "len = 1"
    by (auto simp: char_regexp_def)
  from first_index_bounds[OF f] have "k \<le> index" "index < k + length (drop k tx)" by simp_all
  with l show "k \<le> index \<and> index + len \<le> length tx" by (cases "k \<le> length tx") simp_all
qed

lemma char_regexp_simps [simp]:
  "source (char_regexp src cs) = src"
  "lastIndex (char_regexp src cs) = 0"
  by (simp_all add: char_regexp_def)

lemma sample_controller_simps [simp]:
  "editor (sample_controller ed sd style) = ed"
  "scopedDocument (sample_controller ed sd style) = sd"
  "cursorStyle_of (sample_controller ed sd (Some s)) = s"
  "decorationTypeMap (sample_controller ed sd style) = []"
  by (simp_all add: sample_controller_def cursorStyle_of_def)

lemma sample_controller_wf: "wf_controller (sample_controller ed sd style)"
  by (simp add: wf_controller_def)

lemma sample_positionAt_inj: "inj_on (positionAt (document (sample_editor tx sels))) A"
  by (rule inj_onI) simp

lemma sample_matches:
  "matches (char_regexp ''(a|b)'' ''ab'') ''a b a  '' = [(0, 1), (2, 1), (4, 1)]"
  by (simp add: matches_def exec_def char_regexp_def)

subsection \<open>Without an editor\<close>

text \<open>
  Claim C9, as stated, fails for \<open>clear\<close>: without an editor it still empties the
  cache of decoration types.
\<close>

theorem no_editor_clear_counterexample:
  "editor (stale_controller None) = None \<and>
   decorationTypeMap (stale_controller None) \<noteq> [] \<and>
   decorationTypeMap (clear (stale_controller None)) = [] \<and>
   clear (stale_controller None) \<noteq> stale_controller None"
proof -
  have a: "editor (stale_controller None) = None" "decorationTypeMap (stale_controller None) \<noteq> []"
    "decorationTypeMap (clear (stale_controller None)) = []"
    by (simp_all add: stale_controller_def clear_def)
  then have "clear (stale_controller None) \<noteq> stale_controller None" by metis
  with a show ?thesis by simp
qed

text \<open>
  Claim C9, amended. When no editor is present, \<open>apply\<close> returns at once and leaves the
  expression and the whole state unchanged: it creates, renders and evicts nothing.
  \<open>clear\<close> renders nothing and changes nothing but the cache of decoration types, which
  it empties.
\<close>

theorem no_editor_no_op:
  "editor c = None \<Longrightarrow>
   apply_mask p msk c = Some (p, c) \<and> clear c = c\<lparr>decorationTypeMap := []\<rparr>"
  by (simp add: apply_mask_def clear_def)

theorem no_editor_no_op_witness:
  "editor (stale_controller None) = None \<and>
   apply_mask (char_regexp ''(a|b)'' ''ab'') (sample_mask (Some (TextString ''x'')) None)
     (stale_controller None) = Some (char_regexp ''(a|b)'' ''ab'', stale_controller None) \<and>
   clear (stale_controller None) = (stale_controller None)\<lparr>decorationTypeMap := []\<rparr>"
proof -
  have e: "editor (stale_controller None) = None" by (simp add: stale_controller_def)
  from no_editor_no_op[OF e] e show ?thesis by simp
qed

subsection \<open>Revealed matches\<close>

lemma revealed_not_decorated:
  "\<exists>sel \<in> set (selections ed). reveals cs (document ed) m sel \<Longrightarrow>
   \<not> decorateSymbol sd ed cs msk tx m"
  by (simp add: decorateSymbol_eq decorate_rule_def Let_def)

lemma collected_ranges:
  "d_range ` set (collected c ed msk p k) \<subseteq> match_range ed ` set (decorated c ed msk p)"
  by (auto simp: collected_def match_decoration_def Let_def)

lemma match_range_inj:
  assumes snd: "sound_matcher p"
    and inj: "inj_on (positionAt (document ed)) {..length tx}"
    and m: "m \<in> set (matches p tx)" and m': "m' \<in> set (matches p tx)"
    and eq: "match_range ed m' = match_range ed m"
  shows "m' = m"
proof -
  from matches_props(1)[OF snd m] matches_props(1)[OF snd m']
  have b: "fst m \<in> {..length tx}" "fst m' \<in> {..length tx}" by simp_all
  from eq have "positionAt (document ed) (fst m') = positionAt (document ed) (fst m)"
    by (simp add: match_range_def)
  from inj_onD[OF inj this b(2) b(1)] have "fst m' = fst m" .
  from inj_onD[OF matches_props(2)[OF snd] this m' m] show ?thesis .
qed

text \<open>
  Claim C1. Let a selection of the editor reveal a match of the pattern: it intersects
  the character range of the match, taken as it is when the caret style begins with
  \<open>line\<close> and with the start moved one character to the left for every other style
  (this is \<open>reveals\<close>). Then \<open>apply\<close> does not decorate the match, whatever the mask and
  its scope filters are, and the range of the match is in none of the lists that the
  editor shows for the decoration types of the cache after the call. The engine is sound,
  the cache is well formed, and \<open>positionAt\<close> is one-to-one on the offsets of the text.
\<close>

theorem revealed_match_not_rendered:
  assumes "wf_controller c" and "sound_matcher p" and "editor c = Some ed"
    and "inj_on (positionAt (document ed)) {..length (getText (document ed))}"
    and "m \<in> set (matches p (getText (document ed)))"
    and "\<exists>sel \<in> set (selections ed). reveals (cursorStyle_of c) (document ed) m sel"
  shows "\<not> decorateSymbol (scopedDocument c) ed (cursorStyle_of c) msk (getText (document ed)) m \<and>
         (\<exists>p' c'. apply_mask p msk c = Some (p', c') \<and>
            (\<forall>k l. rendered c' k = Some l \<longrightarrow> match_range ed m \<notin> d_range ` set l))"
proof -
  have nd: "\<not> decorateSymbol (scopedDocument c) ed (cursorStyle_of c) msk (getText (document ed)) m"
    by (rule revealed_not_decorated[OF assms(6)])
  from apply_result[OF assms(2,3), of msk] assms(1)
  obtain p' c' where ap: "apply_mask p msk c = Some (p', c')"
    and rd: "\<forall>k. rendered c' k =
        (if k = source p \<or> k \<in> derived_keys c ed msk p then Some (collected c ed msk p k) else None)"
    by blast
  have "match_range ed m \<notin> d_range ` set l" if r: "rendered c' k = Some l" for k l
  proof
    assume "match_range ed m \<in> d_range ` set l"
    moreover from r rd have "l = collected c ed msk p k" by (auto split: if_splits)
    ultimately have "match_range ed m \<in> match_range ed ` set (decorated c ed msk p)"
      using collected_ranges[of c ed msk p k] by auto
    then obtain m' where m': "m' \<in> set (decorated c ed msk p)" and e: "match_range ed m' = match_range ed m"
      by auto
    from m' have mm: "m' \<in> set (matches p (getText (document ed)))"
      and d: "decorateSymbol (scopedDocument c) ed (cursorStyle_of c) msk (getText (document ed)) m'"
      by (simp_all add: decorated_def)
    from match_range_inj[OF assms(2,4,5) mm e] have "m' = m" .
    with d nd show False by simp
  qed
  with nd ap show ?thesis by blast
qed

lemma sample_reveal: "reveals ''line'' (document (sample_editor tx sels)) (0, 1) (caret 1)"
  by (simp add: reveals_def)

theorem revealed_match_not_rendered_witness:
  "reveals ''line'' (document (sample_editor ''a b a  '' [caret 1])) (0, 1) (caret 1) \<and>
   \<not> reveals ''line'' (document (sample_editor ''a b a  '' [caret 1])) (2, 1) (caret 1) \<and>
   reveals ''block'' (document (sample_editor ''a b a  '' [caret 1])) (2, 1) (caret 1) \<and>
   reveals ''line'' (document (sample_editor ''a b a  '' [caret 1])) (10, 3) (caret 11) \<and>
   \<not> reveals ''line'' (document (sample_editor ''a b a  '' [caret 1])) (10, 3) (caret 20) \<and>
   \<not> decorateSymbol (None :: nat scoped_document option) (sample_editor ''a b a  '' [caret 1]) ''line''
        (sample_mask (Some (TextString ''x'')) None) ''a b a  '' (0, 1) \<and>
   (\<exists>p' c'. apply_mask (char_regexp ''(a|b)'' ''ab'') (sample_mask (Some (TextString ''x'')) None)
              (sample_controller (Some (sample_editor ''a b a  '' [caret 1])) None (Some ''line''))
            = Some (p', c') \<and>
      (\<forall>k l. rendered c' k = Some l \<longrightarrow>
         match_range (sample_editor ''a b a  '' [caret 1]) (0, 1) \<notin> d_range ` set l))"
proof -
  let ?ed = "sample_editor ''a b a  '' [caret 1]"
  let ?c = "sample_controller (Some ?ed) None (Some ''line'') :: nat mask_controller"
  have h3: "editor ?c = Some ?ed" by simp
  have h4: "inj_on (positionAt (document ?ed)) {..length (getText (document ?ed))}"
    by (rule sample_positionAt_inj)
  have h5: "(0, 1) \<in> set (matches (char_regexp ''(a|b)'' ''ab'') (getText (document ?ed)))"
    by (simp add: sample_matches)
  have h6: "\<exists>sel \<in> set (selections ?ed). reveals (cursorStyle_of ?c) (document ?ed) (0, 1) sel"
    using sample_reveal[of "''a b a  ''" "[caret 1]"] by simp
  from revealed_match_not_rendered[OF sample_controller_wf char_regexp_sound h3 h4 h5 h6,
      of "sample_mask (Some (TextString ''x'')) None"]
    sample_reveal[of "''a b a  ''" "[caret 1]"]
  show ?thesis by (simp add: reveals_def)
qed

subsection \<open>The key of a match with an entry in the replacement map\<close>

lemma match_key_entry:
  assumes "m_text msk = Some (TextMap replacements)"
    and "replacements (take (snd m) (drop (fst m) tx)) = Some r" and "r_text r \<noteq> []"
  shows "match_key src msk tx m = src @ ''@@@'' @ r_text r"
    and "match_derived msk tx m"
    and "match_decoration ed msk tx m = \<lparr>d_range = match_range ed m, d_hoverMessage = r_hover r\<rparr>"
  using assms
  by (simp_all add: match_key_def match_derived_def match_decoration_def decorationKey_def
      find_matchReplace_def matchReplace_text_truthy_def)

text \<open>
  Claim C3, amended. For a mask with a replacement map and a decorated match whose
  matched text has an entry in the map with a replacement text that is not empty, the
  key under which the range of the match is collected and rendered is the source of the
  pattern, the separator \<open>@@@\<close> and the replacement text of the entry: after the call the
  cache holds a decoration type under this key, and the editor shows for it a list that
  contains the range of the match, with the hover message of the entry.
\<close>

theorem derived_key_of_entry:
  assumes "wf_controller c" and "sound_matcher p" and "editor c = Some ed"
    and "m \<in> set (decorated c ed msk p)"
    and "m_text msk = Some (TextMap replacements)"
    and "replacements (take (snd m) (drop (fst m) (getText (document ed)))) = Some r"
    and "r_text r \<noteq> []"
  shows "\<exists>p' c' l. apply_mask p msk c = Some (p', c') \<and>
           rendered c' (source p @ ''@@@'' @ r_text r) = Some l \<and>
           \<lparr>d_range = match_range ed m, d_hoverMessage = r_hover r\<rparr> \<in> set l"
proof -
  let ?tx = "getText (document ed)"
  let ?k = "source p @ ''@@@'' @ r_text r"
  note e = match_key_entry[OF assms(5,6,7)]
  from apply_result[OF assms(2,3), of msk] assms(1)
  obtain p' c' where ap: "apply_mask p msk c = Some (p', c')"
    and rd: "\<forall>k. rendered c' k =
        (if k = source p \<or> k \<in> derived_keys c ed msk p then Some (collected c ed msk p k) else None)"
    by blast
  have "?k \<in> derived_keys c ed msk p"
    unfolding derived_keys_def using assms(4) e(1)[of "source p"] e(2) by force
  with rd have r: "rendered c' ?k = Some (collected c ed msk p ?k)" by simp
  have "match_decoration ed msk ?tx m \<in> set (collected c ed msk p ?k)"
    unfolding collected_def using assms(4) e(1)[of "source p"] by simp
  then have "\<lparr>d_range = match_range ed m, d_hoverMessage = r_hover r\<rparr> \<in> set (collected c ed msk p ?k)"
    by (simp add: e(3))
  with ap r show ?thesis by blast
qed

lemma sample_decorated:
  "decorated (sample_controller (Some (sample_editor ''a b a  '' [caret 7])) None (Some ''line''))
     (sample_editor ''a b a  '' [caret 7]) (sample_mask (Some (TextMap sample_map)) None)
     (char_regexp ''(a|b)'' ''ab'') = [(0, 1), (2, 1), (4, 1)]"
  by (simp add: decorated_def sample_matches decorateSymbol_eq decorate_rule_def reveals_def
      scope_filter_def find_matchReplace_def matchReplace_scope_def truthy_def)

theorem derived_key_of_entry_witness:
  "(0, 1) \<in> set (decorated (sample_controller (Some (sample_editor ''a b a  '' [caret 7])) None (Some ''line''))
     (sample_editor ''a b a  '' [caret 7]) (sample_mask (Some (TextMap sample_map)) None)
     (char_regexp ''(a|b)'' ''ab'')) \<and>
   sample_map (take 1 (drop 0 ''a b a  '')) = Some (sample_entry ''x'' None) \<and>
   (\<exists>p' c' l.
      apply_mask (char_regexp ''(a|b)'' ''ab'') (sample_mask (Some (TextMap sample_map)) None)
        (sample_controller (Some (sample_editor ''a b a  '' [caret 7])) None (Some ''line''))
        = Some (p', c') \<and>
      rendered c' ''(a|b)@@@x'' = Some l \<and>
      \<lparr>d_range = (\<lparr>line = 0, character = 0\<rparr>, \<lparr>line = 0, character = 1\<rparr>), d_hoverMessage = None\<rparr> \<in> set l)"
proof -
  let ?ed = "sample_editor ''a b a  '' [caret 7]"
  let ?c = "sample_controller (Some ?ed) None (Some ''line'') :: nat mask_controller"
  let ?msk = "sample_mask (Some (TextMap sample_map)) None"
  have h3: "editor ?c = Some ?ed" by simp
  have h4: "(0, 1) \<in> set (decorated ?c ?ed ?msk (char_regexp ''(a|b)'' ''ab''))"
    by (simp add: sample_decorated)
  have h5: "m_text ?msk = Some (TextMap sample_map)" by simp
  have h6: "sample_map (take (snd (0::nat, 1::nat)) (drop (fst (0::nat, 1::nat)) (getText (document ?ed))))
      = Some (sample_entry ''x'' None)" by simp
  have h7: "r_text (sample_entry ''x'' None) \<noteq> []" by simp
  from derived_key_of_entry[OF sample_controller_wf char_regexp_sound h3 h4 h5 h6 h7] h4
  show ?thesis by (simp add: match_range_def)
qed

text \<open>The keys of the sample call.\<close>

lemma sample_derived_keys:
  "derived_keys (sample_controller (Some (sample_editor ''a b a  '' [caret 7])) None (Some ''line''))
     (sample_editor ''a b a  '' [caret 7]) (sample_mask (Some (TextMap sample_map)) None)
     (char_regexp ''(a|b)'' ''ab'') = {''(a|b)@@@x'', ''(a|b)@@@y''}"
proof -
  have k: "match_key ''(a|b)'' (sample_mask (Some (TextMap sample_map)) None) ''a b a  '' (0, 1) = ''(a|b)@@@x''"
    "match_key ''(a|b)'' (sample_mask (Some (TextMap sample_map)) None) ''a b a  '' (2, 1) = ''(a|b)@@@y''"
    "match_key ''(a|b)'' (sample_mask (Some (TextMap sample_map)) None) ''a b a  '' (4, 1) = ''(a|b)@@@x''"
    by (simp_all add: match_key_def decorationKey_def find_matchReplace_def matchReplace_text_truthy_def)
  have d: "match_derived (sample_mask (Some (TextMap sample_map)) None) ''a b a  '' (0, 1)"
    "match_derived (sample_mask (Some (TextMap sample_map)) None) ''a b a  '' (2, 1)"
    "match_derived (sample_mask (Some (TextMap sample_map)) None) ''a b a  '' (4, 1)"
    by (simp_all add: match_derived_def find_matchReplace_def matchReplace_text_truthy_def)
  have "{m \<in> set [(0::nat, 1::nat), (2, 1), (4, 1)].
          match_derived (sample_mask (Some (TextMap sample_map)) None) ''a b a  '' m}
        = {(0, 1), (2, 1), (4, 1)}"
    using d by auto
  then show ?thesis
    unfolding derived_keys_def sample_decorated
    using k by auto
qed

text \<open>
  Claim C3, as stated, fails: the derived key is built from the replacement text of the
  entry, not from the matched text. For the pattern \<open>(a|b)\<close>, the map that replaces \<open>a\<close>
  by \<open>x\<close> and \<open>b\<close> by \<open>y\<close>, and the text \<open>a b a\<close>, the decorated match \<open>a\<close> at offset 0
  is collected under the key \<open>(a|b)@@@x\<close>, and after the call the cache holds nothing
  under the key \<open>(a|b)@@@a\<close>.
\<close>

theorem derived_key_counterexample:
  "(0, 1) \<in> set (decorated (sample_controller (Some (sample_editor ''a b a  '' [caret 7])) None (Some ''line''))
     (sample_editor ''a b a  '' [caret 7]) (sample_mask (Some (TextMap sample_map)) None)
     (char_regexp ''(a|b)'' ''ab'')) \<and>
   take 1 (drop 0 ''a b a  '') = ''a'' \<and>
   sample_map ''a'' = Some (sample_entry ''x'' None) \<and>
   match_key (source (char_regexp ''(a|b)'' ''ab'')) (sample_mask (Some (TextMap sample_map)) None)
     ''a b a  '' (0, 1) = ''(a|b)@@@x'' \<and>
   apply_mask (char_regexp ''(a|b)'' ''ab'') (sample_mask (Some (TextMap sample_map)) None)
     (sample_controller (Some (sample_editor ''a b a  '' [caret 7])) None (Some ''line'') :: nat mask_controller)
     \<noteq> None \<and>
   rendered (snd (the (apply_mask (char_regexp ''(a|b)'' ''ab'') (sample_mask (Some (TextMap sample_map)) None)
     (sample_controller (Some (sample_editor ''a b a  '' [caret 7])) None (Some ''line'') :: nat mask_controller))))
     (source (char_regexp ''(a|b)'' ''ab'') @ ''@@@'' @ ''a'') = None"
proof -
  let ?ed = "sample_editor ''a b a  '' [caret 7]"
  let ?c = "sample_controller (Some ?ed) None (Some ''line'') :: nat mask_controller"
  let ?msk = "sample_mask (Some (TextMap sample_map)) None"
  let ?p = "char_regexp ''(a|b)'' ''ab''"
  have h3: "editor ?c = Some ?ed" by simp
  from apply_result[OF char_regexp_sound h3, of "''(a|b)''" "''ab''" ?msk]
    sample_controller_wf[of "Some ?ed" None "Some ''line''"]
  obtain p' c' where ap: "apply_mask ?p ?msk ?c = Some (p', c')"
    and rd: "\<forall>k. rendered c' k =
        (if k = source ?p \<or> k \<in> derived_keys ?c ?ed ?msk ?p then Some (collected ?c ?ed ?msk ?p k) else None)"
    by blast
  from rd have "rendered c' ''(a|b)@@@a'' = None"
    unfolding sample_derived_keys by simp
  with ap have r: "rendered (snd (the (apply_mask ?p ?msk ?c))) (source ?p @ ''@@@'' @ ''a'') = None"
    by simp
  have k: "match_key (source ?p) ?msk ''a b a  '' (0, 1) = ''(a|b)@@@x''"
    by (simp add: match_key_def decorationKey_def find_matchReplace_def matchReplace_text_truthy_def)
  from ap r k show ?thesis by (simp add: sample_decorated)
qed

subsection \<open>Eviction of stale keys\<close>

text \<open>
  Claim C4. Let \<open>apply\<close> run with an editor, and let \<open>st\<close> be the state in which its
  scanning loop ends, so that \<open>matchReplaceKeys st\<close> are the derived keys of this call.
  When \<open>apply\<close> returns, the keys of the cache are exactly the source of the pattern and
  these derived keys; and for every other key that the cache held before the call, the
  editor shows the empty list for its decoration type and the cache no longer has the
  key.
\<close>

theorem stale_keys_evicted:
  assumes "sound_matcher p" and "editor c = Some ed"
    and "scan ed (cursorStyle_of c) msk (getText (document ed)) p (scan_start p msk c) = Some (p', st)"
    and "apply_mask p msk c = Some (p'', c')"
  shows "fst ` set (decorationTypeMap c') = insert (source p) (set (matchReplaceKeys st)) \<and>
         (\<forall>k dt. map_of (decorationTypeMap c) k = Some dt \<and> k \<noteq> source p \<and>
                 k \<notin> set (matchReplaceKeys st) \<longrightarrow>
                 shown c' (handle dt) = [] \<and> map_of (decorationTypeMap c') k = None)"
proof -
  from scan_result[OF assms(1,2), of msk] assms(3)
  have mrk: "set (matchReplaceKeys st) = derived_keys c ed msk p" by auto
  from apply_result[OF assms(1,2), of msk] assms(4)
  have "fst ` set (decorationTypeMap c') = insert (source p) (derived_keys c ed msk p)"
    and "\<forall>k dt. map_of (decorationTypeMap c) k = Some dt \<longrightarrow> k \<noteq> source p \<longrightarrow>
                k \<notin> derived_keys c ed msk p \<longrightarrow>
                shown c' (handle dt) = [] \<and> map_of (decorationTypeMap c') k = None"
    by auto
  then show ?thesis unfolding mrk by blast
qed

lemma scan_returns:
  assumes "sound_matcher p" and "editor c = Some ed"
  shows "\<exists>p' st. scan ed (cursorStyle_of c) msk (getText (document ed)) p (scan_start p msk c) = Some (p', st) \<and>
           set (matchReplaceKeys st) = derived_keys c ed msk p"
  using scan_result[OF assms, of msk] by blast

lemma stale_controller_simps [simp]:
  "editor (stale_controller (Some ed)) =
     Some (ed\<lparr>decorations := (\<lambda>h. if h = 0 then [\<lparr>d_range = (\<lparr>line = 0, character = 0\<rparr>, \<lparr>line = 0, character = 1\<rparr>),
                                        d_hoverMessage = None\<rparr>] else [])\<rparr>)"
  "scopedDocument (stale_controller e) = None"
  "cursorStyle_of (stale_controller e) = ''line''"
  "decorationTypeMap (stale_controller e) =
     [(''old'', \<lparr>handle = 0, options = render_options_of (sample_mask None None)\<rparr>)]"
  by (simp_all add: stale_controller_def cursorStyle_of_def)

lemma sample_no_derived:
  "derived_keys c ed (sample_mask (Some (TextString t)) s) p = {}"
  by (simp add: derived_keys_def match_derived_def find_matchReplace_def matchReplace_text_truthy_def)

theorem stale_keys_evicted_witness:
  "shown (stale_controller (Some (sample_editor ''a b a  '' [caret 7]))) 0 \<noteq> [] \<and>
   (\<exists>p' c'. apply_mask (char_regexp ''(a|b)'' ''ab'') (sample_mask (Some (TextString ''x'')) None)
              (stale_controller (Some (sample_editor ''a b a  '' [caret 7]))) = Some (p', c') \<and>
            fst ` set (decorationTypeMap c') = {''(a|b)''} \<and>
            shown c' 0 = [] \<and>
            map_of (decorationTypeMap c') ''old'' = None)"
proof -
  define c where "c = stale_controller (Some (sample_editor ''a b a  '' [caret 7]))"
  define msk where "msk = sample_mask (Some (TextString ''x'')) None"
  define p where "p = char_regexp ''(a|b)'' ''ab''"
  obtain ed where e: "editor c = Some ed" by (simp add: c_def)
  have snd: "sound_matcher p" unfolding p_def by (rule char_regexp_sound)
  have src: "source p = ''(a|b)''" by (simp add: p_def)
  have nd: "derived_keys c ed msk p = {}" unfolding msk_def by (rule sample_no_derived)
  from scan_returns[OF snd e, of msk]
  obtain p' st where sc: "scan ed (cursorStyle_of c) msk (getText (document ed)) p (scan_start p msk c) = Some (p', st)"
    and mrk: "set (matchReplaceKeys st) = {}"
    unfolding nd by blast
  from apply_returns[OF snd, of msk c]
  obtain p'' c' where ap: "apply_mask p msk c = Some (p'', c')" by auto
  have old: "map_of (decorationTypeMap c) ''old'' =
      Some \<lparr>handle = 0, options = render_options_of (sample_mask None None)\<rparr>"
    by (simp add: c_def)
  note t = stale_keys_evicted[OF snd e sc ap, unfolded mrk src]
  from t have k: "fst ` set (decorationTypeMap c') = {''(a|b)''}" by simp
  from t old have "shown c' (handle \<lparr>handle = 0, options = render_options_of (sample_mask None None)\<rparr>) = [] \<and>
      map_of (decorationTypeMap c') ''old'' = None"
    by (elim conjE allE[of _ "''old''"] allE[of _ "\<lparr>handle = 0, options = render_options_of (sample_mask None None)\<rparr>"]) simp
  then have s: "shown c' 0 = []" "map_of (decorationTypeMap c') ''old'' = None" by simp_all
  have "shown c 0 \<noteq> []" by (simp add: shown_def c_def)
  with ap k s show ?thesis unfolding c_def msk_def p_def by blast
qed

subsection \<open>Repeating a call\<close>

text \<open>
  The decision for a match, and with it what a call collects, depends on the editor only
  through its document and its selections, and on the controller only through the scoped
  document and the caret style.
\<close>

lemma decorated_cong:
  assumes "scopedDocument c1 = scopedDocument c" and "cursorStyleSetting c1 = cursorStyleSetting c"
  shows "decorated c1 (ed\<lparr>decorations := f\<rparr>) msk p = decorated c ed msk p"
proof -
  have "decorateSymbol sd (ed\<lparr>decorations := f\<rparr>) cs msk tx = decorateSymbol sd ed cs msk tx"
    for sd :: "'a scoped_document option" and cs tx
    by (rule ext) (simp add: decorateSymbol_def split: prod.splits)
  then show ?thesis
    using assms by (simp add: decorated_def cursorStyle_of_def)
qed

lemma derived_keys_cong:
  assumes "scopedDocument c1 = scopedDocument c" and "cursorStyleSetting c1 = cursorStyleSetting c"
  shows "derived_keys c1 (ed\<lparr>decorations := f\<rparr>) msk p = derived_keys c ed msk p"
  by (simp add: derived_keys_def decorated_cong[OF assms])

lemma collected_cong:
  assumes "scopedDocument c1 = scopedDocument c" and "cursorStyleSetting c1 = cursorStyleSetting c"
  shows "collected c1 (ed\<lparr>decorations := f\<rparr>) msk p k = collected c ed msk p k"
proof -
  have "match_decoration (ed\<lparr>decorations := f\<rparr>) msk tx = match_decoration ed msk tx" for tx
    by (rule ext) (simp add: match_decoration_def match_range_def)
  then show ?thesis
    by (simp add: collected_def decorated_cong[OF assms])
qed

text \<open>The expression that a call returns differs from the one it was given in \<open>lastIndex\<close> only.\<close>

lemma exec_pattern: "exec re tx = (r, re1) \<Longrightarrow> \<exists>k. re1 = re\<lparr>lastIndex := k\<rparr>"
  by (auto simp: exec_def split: if_splits option.splits)

lemma scan_pattern_upto:
  "sound_matcher re \<Longrightarrow> Suc (length tx) - lastIndex re \<le> n \<Longrightarrow>
   scan ed cs msk tx re st = Some (re', st') \<Longrightarrow> \<exists>k. re' = re\<lparr>lastIndex := k\<rparr>"
proof (induction n arbitrary: re st)
  case 0
  then have "lastIndex re > length tx" by simp
  with 0(3) have "re' = re\<lparr>lastIndex := 0\<rparr>"
    by (subst (asm) scan.simps) (simp add: exec_def)
  then show ?case by blast
next
  case (Suc n)
  obtain r re1 where ex: "exec re tx = (r, re1)" by (cases "exec re tx")
  from exec_pattern[OF ex] obtain k1 where k1: "re1 = re\<lparr>lastIndex := k1\<rparr>" by blast
  show ?case
  proof (cases r)
    case None
    with ex Suc.prems(3) have "re' = re1" by (subst (asm) scan.simps) simp
    with k1 show ?thesis by blast
  next
    case (Some m)
    obtain i k where m: "m = (i, k)" by (cases m)
    show ?thesis
    proof (cases "k = 0")
      case True
      with ex Some m Suc.prems(3) have "re' = re1" by (subst (asm) scan.simps) simp
      with k1 show ?thesis by blast
    next
      case False
      have b: "lastIndex re \<le> i" "i + k \<le> length tx" "lastIndex re1 = i + k"
        using exec_Some[of re tx i k re1] ex Some m Suc.prems(1) by auto
      have s1: "sound_matcher re1" using exec_sound[OF ex Suc.prems(1)] .
      have s2: "Suc (length tx) - lastIndex re1 \<le> n" using b False Suc.prems(2) by linarith
      have "scan ed cs msk tx re1 (match_step ed (source re) cs msk tx m st) = Some (re', st')"
        using Suc.prems(3) ex Some m False by (subst (asm) scan.simps) simp
      from Suc.IH[OF s1 s2 this] obtain k2 where "re' = re1\<lparr>lastIndex := k2\<rparr>" by blast
      with k1 have "re' = re\<lparr>lastIndex := k2\<rparr>" by simp
      then show ?thesis by blast
    qed
  qed
qed

lemma apply_pattern:
  assumes "sound_matcher p" and "apply_mask p msk c = Some (p1, c1)"
  shows "\<exists>k. p1 = p\<lparr>lastIndex := k\<rparr>"
proof (cases "editor c")
  case None
  with assms(2) have "p1 = p\<lparr>lastIndex := lastIndex p\<rparr>" by (simp add: apply_mask_def)
  then show ?thesis by blast
next
  case (Some ed)
  with assms(2) obtain st where
    "scan ed (cursorStyle_of c) msk (getText (document ed)) p (scan_start p msk c) = Some (p1, st)"
    by (auto simp: apply_mask_def split: option.splits)
  from scan_pattern_upto[OF assms(1) _ this, of "Suc (length (getText (document ed)))"]
  show ?thesis by simp
qed

text \<open>
  An expression that matches no empty string is returned with \<open>lastIndex = 0\<close>: its
  scan can only end at a failed search.
\<close>

lemma scan_lastIndex_upto:
  assumes ne: "\<forall>t k i n. matcher re0 t k = Some (i, n) \<longrightarrow> n \<noteq> 0"
  shows "sound_matcher re \<Longrightarrow> matcher re = matcher re0 \<Longrightarrow> Suc (length tx) - lastIndex re \<le> n \<Longrightarrow>
   scan ed cs msk tx re st = Some (re', st') \<Longrightarrow> lastIndex re' = 0"
proof (induction n arbitrary: re st)
  case 0
  then have "lastIndex re > length tx" by simp
  with 0(4) show ?case by (subst (asm) scan.simps) (auto simp: exec_def)
next
  case (Suc n)
  obtain r re1 where ex: "exec re tx = (r, re1)" by (cases "exec re tx")
  show ?case
  proof (cases r)
    case None
    with ex have "lastIndex re1 = 0" by (auto simp: exec_def split: if_splits option.splits)
    moreover from None ex Suc.prems(4) have "re' = re1" by (subst (asm) scan.simps) simp
    ultimately show ?thesis by simp
  next
    case (Some m)
    obtain i k where m: "m = (i, k)" by (cases m)
    from ex Some m have "matcher re tx (lastIndex re) = Some (i, k)"
      by (auto simp: exec_def split: if_splits option.splits)
    with ne Suc.prems(2) have False: "k \<noteq> 0" by auto
    have b: "lastIndex re \<le> i" "i + k \<le> length tx" "lastIndex re1 = i + k"
      using exec_Some[of re tx i k re1] ex Some m Suc.prems(1) by auto
    have s1: "sound_matcher re1" using exec_sound[OF ex Suc.prems(1)] .
    have m1: "matcher re1 = matcher re0" using exec_source[OF ex] Suc.prems(2) by simp
    have s2: "Suc (length tx) - lastIndex re1 \<le> n" using b False Suc.prems(3) by linarith
    have "scan ed cs msk tx re1 (match_step ed (source re) cs msk tx m st) = Some (re', st')"
      using Suc.prems(4) ex Some m False by (subst (asm) scan.simps) simp
    from Suc.IH[OF s1 m1 s2 this] show ?thesis .
  qed
qed

lemma apply_lastIndex:
  assumes "\<forall>t k i n. matcher p t k = Some (i, n) \<longrightarrow> n \<noteq> 0"
    and "sound_matcher p" and "editor c = Some ed" and "apply_mask p msk c = Some (p1, c1)"
  shows "lastIndex p1 = 0"
proof -
  from assms(3,4) obtain st where
    "scan ed (cursorStyle_of c) msk (getText (document ed)) p (scan_start p msk c) = Some (p1, st)"
    by (auto simp: apply_mask_def split: option.splits)
  from scan_lastIndex_upto[OF assms(1,2) refl _ this, of "Suc (length (getText (document ed)))"]
  show ?thesis by simp
qed

text \<open>
  Claim C7. Let a call of \<open>apply\<close> with a pattern and a mask return. Then a second call
  with the same pattern and mask, on the state the first call left (the same document,
  selections and caret style), returns too, and under every key the editor shows after
  the second call exactly the list it showed after the first. The pattern is the same
  value at both calls, as \<^verbatim>\<open>updateMasks\<close> builds a new expression from the same source
  and flags for every call; the expression that a call returns is that value again
  whenever its \<open>lastIndex\<close> is unchanged. The cache is well formed and the engine sound.
\<close>

theorem apply_idempotent:
  assumes "wf_controller c" and "sound_matcher p" and "apply_mask p msk c = Some (p1, c1)"
  shows "(\<exists>p2 c2. apply_mask p msk c1 = Some (p2, c2) \<and> (\<forall>k. rendered c2 k = rendered c1 k)) \<and>
         (lastIndex p1 = lastIndex p \<longrightarrow> p1 = p)"
proof
  show "lastIndex p1 = lastIndex p \<longrightarrow> p1 = p"
    using apply_pattern[OF assms(2,3)] by auto
  show "\<exists>p2 c2. apply_mask p msk c1 = Some (p2, c2) \<and> (\<forall>k. rendered c2 k = rendered c1 k)"
  proof (cases "editor c")
    case None
    with assms(3) have "c1 = c" by (simp add: apply_mask_def)
    with None show ?thesis by (simp add: apply_mask_def)
  next
    case (Some ed)
    from apply_result[OF assms(2) Some, of msk] assms(1,3)
    obtain f where e1: "editor c1 = Some (ed\<lparr>decorations := f\<rparr>)"
      and fr: "scopedDocument c1 = scopedDocument c" "cursorStyleSetting c1 = cursorStyleSetting c"
      and wf1: "wf_controller c1"
      and r1: "\<forall>k. rendered c1 k =
          (if k = source p \<or> k \<in> derived_keys c ed msk p then Some (collected c ed msk p k) else None)"
      by auto
    from apply_result[OF assms(2) e1, of msk] wf1
    obtain p2 c2 where ap: "apply_mask p msk c1 = Some (p2, c2)"
      and r2: "\<forall>k. rendered c2 k =
          (if k = source p \<or> k \<in> derived_keys c1 (ed\<lparr>decorations := f\<rparr>) msk p
           then Some (collected c1 (ed\<lparr>decorations := f\<rparr>) msk p k) else None)"
      by blast
    have "\<forall>k. rendered c2 k = rendered c1 k"
      using r1 r2 by (simp add: derived_keys_cong[OF fr] collected_cong[OF fr])
    with ap show ?thesis by blast
  qed
qed

lemma sample_collected_x:
  "collected (sample_controller (Some (sample_editor ''a b a  '' [caret 7])) None (Some ''line''))
     (sample_editor ''a b a  '' [caret 7]) (sample_mask (Some (TextMap sample_map)) None)
     (char_regexp ''(a|b)'' ''ab'') ''(a|b)@@@x'' =
   [\<lparr>d_range = (\<lparr>line = 0, character = 0\<rparr>, \<lparr>line = 0, character = 1\<rparr>), d_hoverMessage = None\<rparr>,
    \<lparr>d_range = (\<lparr>line = 0, character = 4\<rparr>, \<lparr>line = 0, character = 5\<rparr>), d_hoverMessage = None\<rparr>]"
  unfolding collected_def sample_decorated
  by (simp add: match_key_def decorationKey_def find_matchReplace_def matchReplace_text_truthy_def
      match_decoration_def match_range_def)

theorem apply_idempotent_witness:
  "\<exists>p1 c1 p2 c2.
     apply_mask (char_regexp ''(a|b)'' ''ab'') (sample_mask (Some (TextMap sample_map)) None)
       (sample_controller (Some (sample_editor ''a b a  '' [caret 7])) None (Some ''line'') :: nat mask_controller)
       = Some (p1, c1) \<and>
     apply_mask (char_regexp ''(a|b)'' ''ab'') (sample_mask (Some (TextMap sample_map)) None) c1
       = Some (p2, c2) \<and>
     p1 = char_regexp ''(a|b)'' ''ab'' \<and>
     rendered c2 ''(a|b)@@@x'' = rendered c1 ''(a|b)@@@x'' \<and>
     rendered c1 ''(a|b)@@@x'' =
       Some [\<lparr>d_range = (\<lparr>line = 0, character = 0\<rparr>, \<lparr>line = 0, character = 1\<rparr>), d_hoverMessage = None\<rparr>,
             \<lparr>d_range = (\<lparr>line = 0, character = 4\<rparr>, \<lparr>line = 0, character = 5\<rparr>), d_hoverMessage = None\<rparr>]"
proof -
  define ed where "ed = sample_editor ''a b a  '' [caret 7]"
  define c where "c = (sample_controller (Some ed) None (Some ''line'') :: nat mask_controller)"
  define msk where "msk = sample_mask (Some (TextMap sample_map)) None"
  define p where "p = char_regexp ''(a|b)'' ''ab''"
  have e: "editor c = Some ed" by (simp add: c_def)
  have snd: "sound_matcher p" unfolding p_def by (rule char_regexp_sound)
  have wf: "wf_controller c" unfolding c_def by (rule sample_controller_wf)
  have dk: "''(a|b)@@@x'' \<in> derived_keys c ed msk p"
    unfolding c_def ed_def msk_def p_def sample_derived_keys by simp
  have col: "collected c ed msk p ''(a|b)@@@x'' =
       [\<lparr>d_range = (\<lparr>line = 0, character = 0\<rparr>, \<lparr>line = 0, character = 1\<rparr>), d_hoverMessage = None\<rparr>,
        \<lparr>d_range = (\<lparr>line = 0, character = 4\<rparr>, \<lparr>line = 0, character = 5\<rparr>), d_hoverMessage = None\<rparr>]"
    unfolding c_def ed_def msk_def p_def by (rule sample_collected_x)
  from apply_result[OF snd e, of msk] wf
  obtain p1 c1 where a1: "apply_mask p msk c = Some (p1, c1)"
    and r1: "\<forall>k. rendered c1 k =
        (if k = source p \<or> k \<in> derived_keys c ed msk p then Some (collected c ed msk p k) else None)"
    by blast
  from r1 dk col have x: "rendered c1 ''(a|b)@@@x'' =
       Some [\<lparr>d_range = (\<lparr>line = 0, character = 0\<rparr>, \<lparr>line = 0, character = 1\<rparr>), d_hoverMessage = None\<rparr>,
             \<lparr>d_range = (\<lparr>line = 0, character = 4\<rparr>, \<lparr>line = 0, character = 5\<rparr>), d_hoverMessage = None\<rparr>]"
    by simp
  note t = apply_idempotent[OF wf snd a1]
  from t obtain p2 c2 where a2: "apply_mask p msk c1 = Some (p2, c2)"
    and r: "rendered c2 ''(a|b)@@@x'' = rendered c1 ''(a|b)@@@x''"
    by blast
  have "\<forall>t k i n. matcher p t k = Some (i, n) \<longrightarrow> n \<noteq> 0"
    by (auto simp: p_def char_regexp_def)
  from apply_lastIndex[OF this snd e a1] have "lastIndex p1 = 0" .
  with t have pp: "p1 = p" by (simp add: p_def)
  from a1 a2 r x pp show ?thesis unfolding c_def ed_def msk_def p_def by blast
qed

end
